theory Spec2Isabelle
  imports Main "HOL-Library.Sublist" "HOL-Library.Word"
begin

section \<open>The text patcher \<^verbatim>\<open>temp_fix_quote.py\<close>\<close>

text \<open>
  The script opens one file in text mode (UTF-8), reads it whole, replaces one literal by
  another with \<^verbatim>\<open>str.replace\<close>, opens the same file for writing (which truncates it),
  writes the text back and prints one line. A Python \<^verbatim>\<open>str\<close> is a sequence of code
  points; a file is a sequence of bytes. Both layers are modelled, since the text layer of
  \<^verbatim>\<open>open\<close> (decoding, and the translation of line endings that the default
  \<^verbatim>\<open>newline=None\<close> switches on) stands between the two.
\<close>

subsection \<open>Strings and the two literals\<close>

type_synonym codepoint = nat
type_synonym str = "codepoint list"
type_synonym byte = "8 word"

definition path :: string where
  "path = ''packages/ui/src/components/VideoAnalysis/FeedbackPanel/VideoAnalysisInsightsV2.tsx''"

definition old_text :: str where
  "old_text = map of_char ''\"Your energy really connects with the audience. Let's refine your pacing so your impact is even stronger.\"''"

definition new_text :: str where
  "new_text = map of_char ''\"Look, you've got energy, I'll give you that. But your pacing? It's like watching a sloth try to deliver a TED Talk. Let's fix that disaster before your next presentation.\"''"

subsection \<open>\<^verbatim>\<open>str.replace\<close>, \<^verbatim>\<open>str.split\<close> and \<^verbatim>\<open>str.join\<close>\<close>

text \<open>
  \<^verbatim>\<open>s.replace(old, new)\<close> scans \<open>s\<close> from the left; where \<open>old\<close> starts it emits
  \<open>new\<close> and goes on behind the match, elsewhere it copies one code point. With an empty
  \<open>old\<close> Python puts \<open>new\<close> before every code point and at the end.
\<close>

function str_replace :: "'a list \<Rightarrow> 'a list \<Rightarrow> 'a list \<Rightarrow> 'a list" where
  "str_replace old new [] = (if old = [] then new else [])"
| "str_replace old new (c # cs) =
     (if old = [] then new @ c # str_replace old new cs
      else if prefix old (c # cs) then new @ str_replace old new (drop (length old) (c # cs))
      else c # str_replace old new cs)"
  by pat_completeness auto
termination
  by (relation "measure (\<lambda>(old, new, s). length s)") auto

text \<open>An occurrence of \<open>old\<close> in \<open>s\<close>: \<open>old\<close> starts at some position of \<open>s\<close>.\<close>

fun occurs_in :: "'a list \<Rightarrow> 'a list \<Rightarrow> bool" where
  "occurs_in old [] = (old = [])"
| "occurs_in old (c # cs) = (prefix old (c # cs) \<or> occurs_in old cs)"

text \<open>
  \<^verbatim>\<open>s.split(old)\<close> for a non-empty separator (Python raises \<^verbatim>\<open>ValueError\<close> on an
  empty one, which is \<open>None\<close> here), and \<^verbatim>\<open>new.join(parts)\<close>. They are the words of
  the specification for "every non-overlapping occurrence, scanned left to right": the
  parts are the text between the occurrences.
\<close>

function split_from :: "'a list \<Rightarrow> 'a list \<Rightarrow> 'a list \<Rightarrow> 'a list list" where
  "split_from old acc [] = [rev acc]"
| "split_from old acc (c # cs) =
     (if old \<noteq> [] \<and> prefix old (c # cs)
      then rev acc # split_from old [] (drop (length old) (c # cs))
      else split_from old (c # acc) cs)"
  by pat_completeness auto
termination
  by (relation "measure (\<lambda>(old, acc, s). length s)") auto

definition str_split :: "'a list \<Rightarrow> 'a list \<Rightarrow> 'a list list option" where
  "str_split old s = (if old = [] then None else Some (split_from old [] s))"

fun str_join :: "'a list \<Rightarrow> 'a list list \<Rightarrow> 'a list" where
  "str_join sep [] = []"
| "str_join sep [g] = g"
| "str_join sep (g # h # gs) = g @ sep @ str_join sep (h # gs)"

text \<open>
  The specification's "non-overlapping occurrences, scanned left to right", in its words:
  \<open>gs\<close> are the pieces of a text between the occurrences of \<open>old\<close> that such a scan
  finds, when no occurrence starts inside a piece (not even one that runs on into the
  occurrence behind the piece) and none lies in the last piece. The text is then
  \<open>str_join old gs\<close> and has \<open>length gs - 1\<close> such occurrences.
\<close>

definition spec_scan_parts :: "'a list \<Rightarrow> 'a list list \<Rightarrow> bool" where
  "spec_scan_parts old gs \<longleftrightarrow>
     gs \<noteq> [] \<and> (\<forall>g \<in> set (butlast gs). \<not> occurs_in old (g @ butlast old))
     \<and> \<not> occurs_in old (last gs)"

text \<open>
  The specification's invariant, in its words: before and after are equal, or differ in one
  occurrence of the old literal that has become the new one.
\<close>

definition spec_one_occurrence_changed :: "'a list \<Rightarrow> 'a list \<Rightarrow> 'a list \<Rightarrow> 'a list \<Rightarrow> bool" where
  "spec_one_occurrence_changed old new before after \<longleftrightarrow>
     list_ex (\<lambda>i. take i after = take i before
                 \<and> prefix old (drop i before) \<and> prefix new (drop i after)
                 \<and> drop (i + length new) after = drop (i + length old) before)
       [0 ..< Suc (length before)]"

definition spec_at_most_one_changed :: "'a list \<Rightarrow> 'a list \<Rightarrow> 'a list \<Rightarrow> 'a list \<Rightarrow> bool" where
  "spec_at_most_one_changed old new before after \<longleftrightarrow>
     after = before \<or> spec_one_occurrence_changed old new before after"

subsection \<open>The text layer of \<^verbatim>\<open>open\<close>: UTF-8 and line endings\<close>

text \<open>
  Strict UTF-8, as Python's \<^verbatim>\<open>utf-8\<close> codec with the default error handler: the
  well-formed byte sequences of the Unicode standard, so no overlong forms, no surrogates
  and nothing above U+10FFFF. \<open>utf8_seq b0 bs\<close> decodes the sequence that starts with
  \<open>b0\<close> and gives the code point with the number of continuation bytes it took.
\<close>

definition is_cont :: "nat \<Rightarrow> bool" where
  "is_cont b \<longleftrightarrow> 0x80 \<le> b \<and> b \<le> 0xBF"

definition utf8_seq :: "byte \<Rightarrow> byte list \<Rightarrow> (codepoint \<times> nat) option" where
  "utf8_seq b0 bs =
     (let a = unat b0; t = map unat (take 3 bs) in
      if a < 0x80 then Some (a, 0)
      else if 0xC2 \<le> a \<and> a \<le> 0xDF then
        (case t of
           b1 # _ \<Rightarrow>
             if is_cont b1 then Some ((a - 0xC0) * 0x40 + (b1 - 0x80), 1) else None
         | _ \<Rightarrow> None)
      else if 0xE0 \<le> a \<and> a \<le> 0xEF then
        (case t of
           b1 # b2 # _ \<Rightarrow>
             if (if a = 0xE0 then 0xA0 else 0x80) \<le> b1
                \<and> b1 \<le> (if a = 0xED then 0x9F else 0xBF) \<and> is_cont b2
             then Some ((a - 0xE0) * 0x1000 + (b1 - 0x80) * 0x40 + (b2 - 0x80), 2)
             else None
         | _ \<Rightarrow> None)
      else if 0xF0 \<le> a \<and> a \<le> 0xF4 then
        (case t of
           b1 # b2 # b3 # _ \<Rightarrow>
             if (if a = 0xF0 then 0x90 else 0x80) \<le> b1
                \<and> b1 \<le> (if a = 0xF4 then 0x8F else 0xBF) \<and> is_cont b2 \<and> is_cont b3
             then Some ((a - 0xF0) * 0x40000 + (b1 - 0x80) * 0x1000
                        + (b2 - 0x80) * 0x40 + (b3 - 0x80), 3)
             else None
         | _ \<Rightarrow> None)
      else None)"

fun utf8_decode :: "byte list \<Rightarrow> str option" where
  "utf8_decode [] = Some []"
| "utf8_decode (b0 # bs) =
     (case utf8_seq b0 bs of
        None \<Rightarrow> None
      | Some (c, n) \<Rightarrow> map_option ((#) c) (utf8_decode (drop n bs)))"

text \<open>
  Encoding fails on a surrogate; a number above U+10FFFF is no element of a Python string
  and has no encoding either.
\<close>

definition utf8_encode1 :: "codepoint \<Rightarrow> byte list option" where
  "utf8_encode1 c =
     (if c < 0x80 then Some [of_nat c]
      else if c < 0x800 then Some [of_nat (0xC0 + c div 0x40), of_nat (0x80 + c mod 0x40)]
      else if 0xD800 \<le> c \<and> c \<le> 0xDFFF then None
      else if c < 0x10000 then
        Some [of_nat (0xE0 + c div 0x1000), of_nat (0x80 + c div 0x40 mod 0x40),
              of_nat (0x80 + c mod 0x40)]
      else if c < 0x110000 then
        Some [of_nat (0xF0 + c div 0x40000), of_nat (0x80 + c div 0x1000 mod 0x40),
              of_nat (0x80 + c div 0x40 mod 0x40), of_nat (0x80 + c mod 0x40)]
      else None)"

fun utf8_encode :: "str \<Rightarrow> byte list option" where
  "utf8_encode [] = Some []"
| "utf8_encode (c # cs) =
     (case utf8_encode1 c of
        None \<Rightarrow> None
      | Some bs \<Rightarrow> map_option ((@) bs) (utf8_encode cs))"

text \<open>
  The code points that have an encoding: the Unicode scalar values. A Python string may
  hold a lone surrogate, which does not.
\<close>

definition scalar :: "codepoint \<Rightarrow> bool" where
  "scalar c \<longleftrightarrow> c < 0xD800 \<or> (0xDFFF < c \<and> c < 0x110000)"

text \<open>
  Line endings. Reading with \<^verbatim>\<open>newline=None\<close> turns CR LF and a lone CR into LF;
  writing turns every LF into \<^verbatim>\<open>os.linesep\<close>, which is LF on POSIX and CR LF on
  Windows.
\<close>

definition LF :: codepoint where "LF = 10"
definition CR :: codepoint where "CR = 13"

datatype platform = Posix | Windows

fun linesep :: "platform \<Rightarrow> str" where
  "linesep Posix = [LF]"
| "linesep Windows = [CR, LF]"

fun universal_newlines :: "str \<Rightarrow> str" where
  "universal_newlines [] = []"
| "universal_newlines [c] = [if c = CR then LF else c]"
| "universal_newlines (c # d # cs) =
     (if c = CR \<and> d = LF then LF # universal_newlines cs
      else if c = CR then LF # universal_newlines (d # cs)
      else c # universal_newlines (d # cs))"

definition write_newlines :: "platform \<Rightarrow> str \<Rightarrow> str" where
  "write_newlines p s = concat (map (\<lambda>c. if c = LF then linesep p else [c]) s)"

subsection \<open>Files, the world, and the script\<close>

datatype error = FileNotFoundError | PermissionError | UnicodeDecodeError | UnicodeEncodeError

record disk_file =
  data :: "byte list"
  readable :: bool
  writable :: bool

datatype event = Truncated string | Written string "byte list" | Printed string

record world =
  files :: "string \<rightharpoonup> disk_file"
  stdout :: "string list"
  trace :: "event list"

text \<open>\<^verbatim>\<open>open(p, 'r', encoding='utf-8')\<close>: the file must exist and be readable.\<close>

definition open_read :: "string \<Rightarrow> world \<Rightarrow> error + byte list" where
  "open_read p w =
     (case files w p of
        None \<Rightarrow> Inl FileNotFoundError
      | Some f \<Rightarrow> if readable f then Inr (data f) else Inl PermissionError)"

text \<open>\<^verbatim>\<open>f.read()\<close>: decode the bytes, then translate the line endings.\<close>

definition read_text :: "byte list \<Rightarrow> error + str" where
  "read_text bs =
     (case utf8_decode bs of
        None \<Rightarrow> Inl UnicodeDecodeError
      | Some s \<Rightarrow> Inr (universal_newlines s))"

text \<open>
  \<^verbatim>\<open>open(p, 'w', encoding='utf-8')\<close>: an existing file must be writable and is
  truncated at once; a missing one is created empty.
\<close>

definition open_write :: "string \<Rightarrow> world \<Rightarrow> error + world" where
  "open_write p w =
     (case files w p of
        None \<Rightarrow>
          Inr (w\<lparr>files := (files w)(p \<mapsto> \<lparr>data = [], readable = True, writable = True\<rparr>),
                 trace := trace w @ [Truncated p]\<rparr>)
      | Some f \<Rightarrow>
          if writable f
          then Inr (w\<lparr>files := (files w)(p \<mapsto> f\<lparr>data := []\<rparr>),
                      trace := trace w @ [Truncated p]\<rparr>)
          else Inl PermissionError)"

text \<open>
  \<^verbatim>\<open>f.write(content)\<close> and the close at the end of the \<^verbatim>\<open>with\<close> block: translate
  the line endings, encode, and append the bytes to the open file.
\<close>

definition write_text :: "platform \<Rightarrow> string \<Rightarrow> str \<Rightarrow> world \<Rightarrow> error + world" where
  "write_text pf p s w =
     (case utf8_encode (write_newlines pf s) of
        None \<Rightarrow> Inl UnicodeEncodeError
      | Some bs \<Rightarrow>
          Inr (w\<lparr>files := (files w)(p := map_option (\<lambda>f. f\<lparr>data := data f @ bs\<rparr>) (files w p)),
                 trace := trace w @ [Written p bs]\<rparr>))"

definition print_line :: "string \<Rightarrow> world \<Rightarrow> world" where
  "print_line s w = w\<lparr>stdout := stdout w @ [s], trace := trace w @ [Printed s]\<rparr>"

text \<open>
  The script, top to bottom. An exception ends the run: the result is the error with the
  world as it is at that moment; \<open>None\<close> is the normal end.
\<close>

definition main :: "platform \<Rightarrow> world \<Rightarrow> error option \<times> world" where
  "main pf w =
     (case open_read path w of
        Inl e \<Rightarrow> (Some e, w)
      | Inr bs \<Rightarrow>
          (case read_text bs of
             Inl e \<Rightarrow> (Some e, w)
           | Inr content \<Rightarrow>
               (let content' = str_replace old_text new_text content in
                case open_write path w of
                  Inl e \<Rightarrow> (Some e, w)
                | Inr w1 \<Rightarrow>
                    (case write_text pf path content' w1 of
                       Inl e \<Rightarrow> (Some e, w1)
                     | Inr w2 \<Rightarrow> (None, print_line ''Replacement complete'' w2)))))"

text \<open>
  The text a file holds, as a text-mode read sees it; \<open>None\<close> when the file is missing
  or is not UTF-8.
\<close>

definition file_text :: "world \<Rightarrow> string \<Rightarrow> str option" where
  "file_text w p =
     (case files w p of
        None \<Rightarrow> None
      | Some f \<Rightarrow> map_option universal_newlines (utf8_decode (data f)))"

subsection \<open>Example worlds\<close>

text \<open>
  Inputs for the examples: the bytes of an ASCII text, a world that holds the target file
  with given bytes (readable and writable, nothing printed so far), and a world without it.
\<close>

definition ascii_bytes :: "str \<Rightarrow> byte list" where
  "ascii_bytes s = map of_nat s"

definition world_with_file :: "byte list \<Rightarrow> world" where
  "world_with_file bs =
     \<lparr>files = [path \<mapsto> \<lparr>data = bs, readable = True, writable = True\<rparr>],
      stdout = [], trace = []\<rparr>"

definition world_without_file :: world where
  "world_without_file = \<lparr>files = Map.empty, stdout = [], trace = []\<rparr>"

section \<open>Properties of the string operations\<close>

subsection \<open>Replacing, splitting and joining\<close>

lemma occurs_in_iff_sublist: "occurs_in old s \<longleftrightarrow> sublist old s"
  by (induction s) (auto simp: sublist_Cons_right)

lemma occurs_in_Nil [simp]: "occurs_in [] s"
  by (cases s) simp_all

lemma str_replace_no_occurrence: "\<not> occurs_in old s \<Longrightarrow> str_replace old new s = s"
proof (induction s)
  case Nil
  then show ?case by (cases old) simp_all
next
  case (Cons c cs)
  then show ?case by (cases "old = []") auto
qed

lemma split_from_not_Nil [simp]: "split_from old acc s \<noteq> []"
  by (induction old acc s rule: split_from.induct) auto

lemma split_from_acc:
  "split_from old acc s = (rev acc @ hd (split_from old [] s)) # tl (split_from old [] s)"
proof (induction s arbitrary: acc)
  case Nil
  show ?case by simp
next
  case (Cons c cs)
  show ?case
  proof (cases "old \<noteq> [] \<and> prefix old (c # cs)")
    case True
    then show ?thesis by simp
  next
    case False
    have a: "split_from old acc (c # cs) = split_from old (c # acc) cs"
      using False by auto
    have b: "split_from old [] (c # cs) = split_from old [c] cs"
      using False by auto
    show ?thesis
      unfolding a b using Cons.IH [of "c # acc"] Cons.IH [of "[c]"] by simp
  qed
qed

lemma str_replace_match:
  "old \<noteq> [] \<Longrightarrow> str_replace old new (old @ r) = new @ str_replace old new r"
  by (cases old) simp_all

lemma str_replace_step:
  "\<not> prefix old (c # cs) \<Longrightarrow> str_replace old new (c # cs) = c # str_replace old new cs"
  by auto

lemma split_from_match:
  "old \<noteq> [] \<Longrightarrow> split_from old acc (old @ r) = rev acc # split_from old [] r"
  by (cases old) simp_all

lemma str_join_Cons: "gs \<noteq> [] \<Longrightarrow> str_join sep (g # gs) = g @ sep @ str_join sep gs"
  by (cases gs) simp_all

lemma str_join_prepend:
  "gs \<noteq> [] \<Longrightarrow> str_join sep ((a @ hd gs) # tl gs) = a @ str_join sep gs"
  by (cases gs; cases "tl gs") auto

lemma str_join_Cons_hd:
  "gs \<noteq> [] \<Longrightarrow> str_join sep ((c # hd gs) # tl gs) = c # str_join sep gs"
  using str_join_prepend [of gs sep "[c]"] by simp

lemma split_from_step:
  "\<not> prefix old (c # cs) \<Longrightarrow> split_from old acc (c # cs) = split_from old (c # acc) cs"
  by simp

declare str_replace.simps(2) [simp del] split_from.simps(2) [simp del]


lemma str_join_split_from:
  "old \<noteq> [] \<Longrightarrow> str_join old (split_from old [] s) = s"
proof (induction s rule: length_induct)
  case (1 s)
  show ?case
  proof (cases s)
    case Nil
    then show ?thesis by simp
  next
    case (Cons c cs)
    show ?thesis
    proof (cases "prefix old (c # cs)")
      case True
      then obtain r where r: "c # cs = old @ r" by (auto simp: prefix_def)
      have len: "length r < length s" using r Cons 1(2) by (metis length_append length_greater_0_conv less_add_same_cancel2)
      have "split_from old [] s = [] # split_from old [] r"
        using 1(2) Cons r by (simp add: split_from_match)
      then show ?thesis using 1(1) len 1(2) r Cons by (simp add: str_join_Cons)
    next
      case False
      have "split_from old [] s = (c # hd (split_from old [] cs)) # tl (split_from old [] cs)"
        using False Cons split_from_acc [of old "[c]" cs] by (simp add: split_from_step)
      then show ?thesis
        using 1 Cons by (simp add: str_join_Cons_hd)
    qed
  qed
qed

lemma str_replace_split_from:
  "old \<noteq> [] \<Longrightarrow> str_replace old new s = str_join new (split_from old [] s)"
proof (induction s rule: length_induct)
  case (1 s)
  show ?case
  proof (cases s)
    case Nil
    then show ?thesis using 1(2) by simp
  next
    case (Cons c cs)
    show ?thesis
    proof (cases "prefix old (c # cs)")
      case True
      then obtain r where r: "c # cs = old @ r" by (auto simp: prefix_def)
      have len: "length r < length s" using r Cons 1(2) by (metis length_append length_greater_0_conv less_add_same_cancel2)
      have "split_from old [] s = [] # split_from old [] r"
        using 1(2) Cons r by (simp add: split_from_match)
      moreover have "str_replace old new s = new @ str_replace old new r"
        using 1(2) Cons r by (simp add: str_replace_match)
      ultimately show ?thesis using 1(1) len 1(2) by (simp add: str_join_Cons)
    next
      case False
      have "split_from old [] s = (c # hd (split_from old [] cs)) # tl (split_from old [] cs)"
        using False Cons split_from_acc [of old "[c]" cs] by (simp add: split_from_step)
      moreover have "str_replace old new s = c # str_replace old new cs"
        using False Cons by (simp add: str_replace_step)
      ultimately show ?thesis
        using 1 Cons by (simp add: str_join_Cons_hd)
    qed
  qed
qed

lemma occurs_in_length: "occurs_in old s \<Longrightarrow> length old \<le> length s"
  by (induction s) (auto dest: prefix_length_le)

lemma prefix_hd_str_join: "gs \<noteq> [] \<Longrightarrow> prefix (hd gs) (str_join sep gs)"
  by (cases gs; cases "tl gs") auto

lemma prefix_hd_split_from: "old \<noteq> [] \<Longrightarrow> prefix (hd (split_from old [] s)) s"
  using prefix_hd_str_join [of "split_from old [] s" old] by (simp add: str_join_split_from)

lemma split_from_parts_free:
  "old \<noteq> [] \<Longrightarrow> g \<in> set (split_from old [] s) \<Longrightarrow> \<not> occurs_in old g"
proof (induction s arbitrary: g rule: length_induct)
  case (1 s)
  show ?case
  proof (cases s)
    case Nil
    then show ?thesis using 1(2,3) by simp
  next
    case (Cons c cs)
    show ?thesis
    proof (cases "prefix old (c # cs)")
      case True
      then obtain r where r: "c # cs = old @ r" by (auto simp: prefix_def)
      have len: "length r < length s" using r Cons 1(2)
        by (metis length_append length_greater_0_conv less_add_same_cancel2)
      have "split_from old [] s = [] # split_from old [] r"
        using 1(2) Cons r by (simp add: split_from_match)
      then have "g = [] \<or> g \<in> set (split_from old [] r)" using 1(3) by auto
      then show ?thesis using 1(1) len 1(2) by auto
    next
      case False
      let ?P = "split_from old [] cs"
      have P: "split_from old [] s = (c # hd ?P) # tl ?P"
        using False Cons split_from_acc [of old "[c]" cs] by (simp add: split_from_step)
      have hd_free: "\<not> occurs_in old (hd ?P)"
        using 1(1) [rule_format, of cs "hd ?P"] Cons 1(2) by simp
      have "prefix (c # hd ?P) (c # cs)"
        using prefix_hd_split_from [OF 1(2), of cs] by simp
      then have "\<not> prefix old (c # hd ?P)"
        using False prefix_order.trans by blast
      then have first: "\<not> occurs_in old (c # hd ?P)" using hd_free by simp
      have "g = c # hd ?P \<or> g \<in> set (tl ?P)" using 1(3) P by auto
      then show ?thesis
      proof
        assume "g = c # hd ?P"
        then show ?thesis using first by simp
      next
        assume "g \<in> set (tl ?P)"
        then have "g \<in> set ?P" by (meson list.set_sel(2) split_from_not_Nil)
        then show ?thesis using 1(1) [rule_format, of cs g] Cons 1(2) by simp
      qed
    qed
  qed
qed

lemma prefix_gap_butlast:
  assumes "old \<noteq> []" and "prefix old (c # g @ old @ r)"
  shows "prefix old (c # g @ butlast old)"
proof -
  have "c # g @ old @ r = (c # g @ butlast old) @ (last old # r)"
    using assms(1) by simp
  moreover have "length old \<le> length (c # g @ butlast old)" by simp
  ultimately show ?thesis
    using assms(2) by (metis prefix_length_prefix prefixI)
qed

lemma str_replace_gap:
  "old \<noteq> [] \<Longrightarrow> \<not> occurs_in old (g @ butlast old) \<Longrightarrow>
   str_replace old new (g @ old @ r) = g @ new @ str_replace old new r"
proof (induction g)
  case Nil
  then show ?case by (simp add: str_replace_match)
next
  case (Cons c g)
  have "\<not> prefix old (c # g @ butlast old)" using Cons.prems(2) by simp
  then have "\<not> prefix old (c # g @ old @ r)"
    using prefix_gap_butlast [OF Cons.prems(1)] by blast
  moreover have "\<not> occurs_in old (g @ butlast old)" using Cons.prems(2) by simp
  ultimately show ?case using Cons.IH Cons.prems(1) by (simp add: str_replace_step)
qed

lemma str_replace_str_join:
  "old \<noteq> [] \<Longrightarrow> gs \<noteq> [] \<Longrightarrow> \<forall>g \<in> set (butlast gs). \<not> occurs_in old (g @ butlast old) \<Longrightarrow>
   \<not> occurs_in old (last gs) \<Longrightarrow> str_replace old new (str_join old gs) = str_join new gs"
proof (induction old gs rule: str_join.induct)
  case (1 sep)
  then show ?case by simp
next
  case (2 sep g)
  then show ?case by (simp add: str_replace_no_occurrence)
next
  case (3 sep g h gs)
  then show ?case by (simp add: str_replace_gap)
qed

lemma length_str_join:
  "gs \<noteq> [] \<Longrightarrow>
   length (str_join sep gs) = sum_list (map length gs) + (length gs - 1) * length sep"
  by (induction sep gs rule: str_join.induct) auto

lemma split_from_single:
  assumes "old \<noteq> []" and "length (split_from old [] s) \<le> 1"
  shows "\<not> occurs_in old s"
proof -
  obtain g where g: "split_from old [] s = [g]"
    using assms(2) split_from_not_Nil [of old "[]" s]
    by (cases "split_from old [] s"; cases "tl (split_from old [] s)") auto
  then have "s = g" using str_join_split_from [OF assms(1), of s] by simp
  then show ?thesis using split_from_parts_free [OF assms(1), of g s] g by simp
qed

lemma length_str_replace:
  assumes "old \<noteq> []"
  shows "length (str_replace old new s) + (length (split_from old [] s) - 1) * length old
         = length s + (length (split_from old [] s) - 1) * length new"
proof -
  have "length (str_join new (split_from old [] s)) + (length (split_from old [] s) - 1) * length old
        = length (str_join old (split_from old [] s)) + (length (split_from old [] s) - 1) * length new"
    by (simp add: length_str_join)
  then show ?thesis
    using assms by (simp add: str_replace_split_from str_join_split_from)
qed

lemma str_replace_changes:
  assumes "occurs_in old s" and "old \<noteq> []" and "length old \<noteq> length new"
  shows "str_replace old new s \<noteq> s"
proof
  assume eq: "str_replace old new s = s"
  have "1 < length (split_from old [] s)"
    using split_from_single [OF assms(2), of s] assms(1) by force
  then have "(length (split_from old [] s) - 1) * length old
             \<noteq> (length (split_from old [] s) - 1) * length new"
    using assms(3) by simp
  then show False using length_str_replace [OF assms(2), of new s] eq by simp
qed

lemma set_str_replace: "set (str_replace old new s) \<subseteq> set s \<union> set new"
proof (induction old new s rule: str_replace.induct)
  case (1 old new)
  then show ?case by auto
next
  case (2 old new c cs)
  show ?case
  proof (cases "old = []")
    case True
    then show ?thesis using 2(1) by (auto simp: str_replace.simps(2))
  next
    case False
    show ?thesis
    proof (cases "prefix old (c # cs)")
      case True
      have "set (drop (length old) (c # cs)) \<subseteq> set (c # cs)" by (rule set_drop_subset)
      then show ?thesis using 2(2) [OF False True] False True
        by (auto simp: str_replace.simps(2))
    next
      case False2: False
      then show ?thesis using 2(3) [OF False False2] False
        by (auto simp: str_replace.simps(2))
    qed
  qed
qed

subsection \<open>The two literals\<close>

lemma length_old_text: "length old_text = 106"
  by (simp add: old_text_def)

lemma length_new_text: "length new_text = 172"
  by (simp add: new_text_def)

lemma old_text_not_Nil: "old_text \<noteq> []"
  using length_old_text by auto

lemma old_text_Cons: "old_text = 34 # tl old_text"
  by (simp add: old_text_def)

lemma new_text_snoc: "new_text = butlast new_text @ [34]"
  by (simp add: new_text_def)

lemma Y_in_old_text: "89 \<in> set old_text"
  by (simp add: old_text_def)

lemma Y_notin_new_text: "89 \<notin> set new_text"
  by (simp add: new_text_def)

lemma CR_notin_new_text: "13 \<notin> set new_text"
  by (simp add: new_text_def)

lemma new_text_ascii: "\<forall>c \<in> set new_text. c < 128"
  by (simp add: new_text_def)

lemma occurs_in_set: "occurs_in old s \<Longrightarrow> set old \<subseteq> set s"
  unfolding occurs_in_iff_sublist by (rule set_mono_sublist)

lemma new_text_free: "\<not> occurs_in old_text new_text"
  using occurs_in_set [of old_text new_text] Y_in_old_text Y_notin_new_text by blast

lemma length_tl_old_text: "length (tl old_text) = 105"
  using length_old_text by simp

lemma tl_old_text_free: "\<not> occurs_in old_text (tl old_text)"
  using occurs_in_length [of old_text "tl old_text"] length_old_text length_tl_old_text by auto

lemma replace_old_tl_old:
  "str_replace old_text new_text (old_text @ tl old_text) = new_text @ tl old_text"
  using old_text_not_Nil tl_old_text_free
  by (simp add: str_replace_match str_replace_no_occurrence)

lemma occurs_in_new_tl_old: "occurs_in old_text (new_text @ tl old_text)"
proof -
  have "new_text @ tl old_text = butlast new_text @ old_text @ []"
    using new_text_snoc old_text_Cons by (metis append_Cons append_Nil append_Nil2 append_assoc)
  then show ?thesis
    unfolding occurs_in_iff_sublist by (metis sublist_appendI)
qed

section \<open>Properties of the text layer\<close>

subsection \<open>UTF-8: decoding and encoding are inverse to each other\<close>

lemma byte_of_unat: "of_nat (unat (b::byte)) = b" by simp
lemma unat_byte_of_nat: "x < 256 \<Longrightarrow> unat (of_nat x :: byte) = x" by (simp add: unat_of_nat)
lemma unat_byte_lt: "unat (b::byte) < 256" using unsigned_less [of b, where 'a = nat] by simp

lemma split2:
  fixes a b :: nat
  assumes "b < 64"
  shows "(a * 64 + b) div 64 = a" "(a * 64 + b) mod 64 = b"
  using assms by simp_all

lemma split3:
  fixes a b1 b2 :: nat
  assumes "b1 < 64" "b2 < 64"
  shows "(a * 4096 + b1 * 64 + b2) div 4096 = a"
    "(a * 4096 + b1 * 64 + b2) div 64 mod 64 = b1"
    "(a * 4096 + b1 * 64 + b2) mod 64 = b2"
proof -
  let ?c = "a * 4096 + b1 * 64 + b2"
  have e: "?c = (a * 64 + b1) * 64 + b2" by simp
  have d: "?c div 64 = a * 64 + b1"
    using split2(1) [OF assms(2), of "a * 64 + b1"] e by metis
  show "?c div 64 mod 64 = b1"
    using split2(2) [OF assms(1), of a] d by metis
  show "?c mod 64 = b2"
    using split2(2) [OF assms(2), of "a * 64 + b1"] e by metis
  have "?c div 4096 = ?c div 64 div 64"
    by (simp add: div_mult2_eq)
  also have "\<dots> = a" using split2(1) [OF assms(1), of a] d by metis
  finally show "?c div 4096 = a" .
qed

lemma split4:
  fixes a b1 b2 b3 :: nat
  assumes "b1 < 64" "b2 < 64" "b3 < 64"
  shows "(a * 262144 + b1 * 4096 + b2 * 64 + b3) div 262144 = a"
    "(a * 262144 + b1 * 4096 + b2 * 64 + b3) div 4096 mod 64 = b1"
    "(a * 262144 + b1 * 4096 + b2 * 64 + b3) div 64 mod 64 = b2"
    "(a * 262144 + b1 * 4096 + b2 * 64 + b3) mod 64 = b3"
proof -
  let ?c = "a * 262144 + b1 * 4096 + b2 * 64 + b3"
  have e: "?c = ((a * 64 + b1) * 4096 + b2 * 64 + b3)" by simp
  show "?c div 64 mod 64 = b2"
    using split3(2) [OF assms(2,3), of "a * 64 + b1"] e by metis
  show "?c mod 64 = b3"
    using split3(3) [OF assms(2,3), of "a * 64 + b1"] e by metis
  have d: "?c div 4096 = a * 64 + b1"
    using split3(1) [OF assms(2,3), of "a * 64 + b1"] e by metis
  show "?c div 4096 mod 64 = b1"
    using split2(2) [OF assms(1), of a] d by metis
  have "?c div 262144 = ?c div 4096 div 64" by (simp add: div_mult2_eq)
  also have "\<dots> = a" using split2(1) [OF assms(1), of a] d by metis
  finally show "?c div 262144 = a" .
qed



lemma utf8_seq_1: "unat b0 < 128 \<Longrightarrow> utf8_seq b0 bs = Some (unat b0, 0)"
  by (simp add: utf8_seq_def)

lemma utf8_seq_2:
  "unat b0 = 192 + a \<Longrightarrow> 2 \<le> a \<Longrightarrow> a < 32 \<Longrightarrow> unat b1 = 128 + x \<Longrightarrow> x < 64 \<Longrightarrow>
   utf8_seq b0 (b1 # r) = Some (a * 64 + x, 1)"
  by (simp add: utf8_seq_def is_cont_def)

lemma utf8_seq_3:
  "unat b0 = 224 + a \<Longrightarrow> a < 16 \<Longrightarrow> unat b1 = 128 + x \<Longrightarrow> x < 64 \<Longrightarrow>
   unat b2 = 128 + y \<Longrightarrow> y < 64 \<Longrightarrow> (a = 0 \<longrightarrow> 32 \<le> x) \<Longrightarrow> (a = 13 \<longrightarrow> x < 32) \<Longrightarrow>
   utf8_seq b0 (b1 # b2 # r) = Some (a * 4096 + x * 64 + y, 2)"
  by (auto simp add: utf8_seq_def is_cont_def)

lemma utf8_seq_4:
  "unat b0 = 240 + a \<Longrightarrow> a \<le> 4 \<Longrightarrow> unat b1 = 128 + x \<Longrightarrow> x < 64 \<Longrightarrow>
   unat b2 = 128 + y \<Longrightarrow> y < 64 \<Longrightarrow> unat b3 = 128 + z \<Longrightarrow> z < 64 \<Longrightarrow>
   (a = 0 \<longrightarrow> 16 \<le> x) \<Longrightarrow> (a = 4 \<longrightarrow> x < 16) \<Longrightarrow>
   utf8_seq b0 (b1 # b2 # b3 # r) = Some (a * 262144 + x * 4096 + y * 64 + z, 3)"
  by (auto simp add: utf8_seq_def is_cont_def)

lemma utf8_seq_D1:
  "utf8_seq b0 bs = Some (c, n) \<Longrightarrow> unat b0 < 128 \<Longrightarrow> c = unat b0 \<and> n = 0"
  by (simp add: utf8_seq_def)

lemma utf8_seq_D5:
  "128 \<le> unat b0 \<and> unat b0 < 194 \<or> 244 < unat b0 \<Longrightarrow> utf8_seq b0 bs = None"
  by (auto simp: utf8_seq_def)


lemma list3_cases:
  obtains "bs = []" | b1 where "bs = [b1]" | b1 b2 where "bs = [b1, b2]"
  | b1 b2 b3 r where "bs = b1 # b2 # b3 # r"
proof (cases bs)
  case Nil
  then show ?thesis using that(1) by simp
next
  case c1: (Cons b1 r1)
  show ?thesis
  proof (cases r1)
    case Nil
    then show ?thesis using that(2) c1 by simp
  next
    case c2: (Cons b2 r2)
    show ?thesis
    proof (cases r2)
      case Nil
      then show ?thesis using that(3) c1 c2 by simp
    next
      case (Cons b3 r3)
      then show ?thesis using that(4) c1 c2 by simp
    qed
  qed
qed

lemma utf8_seq_D2:
  assumes "utf8_seq b0 bs = Some (c, n)" "194 \<le> unat b0" "unat b0 \<le> 223"
  shows "\<exists>b1 r. bs = b1 # r \<and> 128 \<le> unat b1 \<and> unat b1 \<le> 191
           \<and> c = (unat b0 - 192) * 64 + (unat b1 - 128) \<and> n = 1"
  using assms
  by (cases bs rule: list3_cases) (auto simp: utf8_seq_def is_cont_def split: if_splits)

lemma utf8_seq_D3:
  assumes "utf8_seq b0 bs = Some (c, n)" "224 \<le> unat b0" "unat b0 \<le> 239"
  shows "\<exists>b1 b2 r. bs = b1 # b2 # r
           \<and> (if unat b0 = 224 then 160 else 128) \<le> unat b1
           \<and> unat b1 \<le> (if unat b0 = 237 then 159 else 191)
           \<and> 128 \<le> unat b2 \<and> unat b2 \<le> 191
           \<and> c = (unat b0 - 224) * 4096 + (unat b1 - 128) * 64 + (unat b2 - 128) \<and> n = 2"
  using assms
  by (cases bs rule: list3_cases) (auto simp: utf8_seq_def is_cont_def split: if_splits)

lemma utf8_seq_D4:
  assumes "utf8_seq b0 bs = Some (c, n)" "240 \<le> unat b0" "unat b0 \<le> 244"
  shows "\<exists>b1 b2 b3 r. bs = b1 # b2 # b3 # r
           \<and> (if unat b0 = 240 then 144 else 128) \<le> unat b1
           \<and> unat b1 \<le> (if unat b0 = 244 then 143 else 191)
           \<and> 128 \<le> unat b2 \<and> unat b2 \<le> 191 \<and> 128 \<le> unat b3 \<and> unat b3 \<le> 191
           \<and> c = (unat b0 - 240) * 262144 + (unat b1 - 128) * 4096 + (unat b2 - 128) * 64
                 + (unat b3 - 128) \<and> n = 3"
  using assms
  by (cases bs rule: list3_cases) (auto simp: utf8_seq_def is_cont_def split: if_splits)


lemma cont_split:
  assumes "128 \<le> (b::nat)" "b \<le> 191"
  obtains x where "b = 128 + x" "x < 64"
proof -
  have "b = 128 + (b - 128)" "b - 128 < 64"
    using assms by linarith+
  then show thesis using that by blast
qed

lemma utf8_seq_cases:
  assumes "utf8_seq b0 bs = Some (c, n)"
  obtains
    (one) "unat b0 < 128" "c = unat b0" "n = 0"
  | (two) a x b1 r where "unat b0 = 192 + a" "2 \<le> a" "a < 32" "bs = b1 # r"
      "unat b1 = 128 + x" "x < 64" "c = a * 64 + x" "n = 1"
  | (three) a x y b1 b2 r where "unat b0 = 224 + a" "a < 16" "bs = b1 # b2 # r"
      "unat b1 = 128 + x" "x < 64" "unat b2 = 128 + y" "y < 64"
      "a = 0 \<longrightarrow> 32 \<le> x" "a = 13 \<longrightarrow> x < 32" "c = a * 4096 + x * 64 + y" "n = 2"
  | (four) a x y z b1 b2 b3 r where "unat b0 = 240 + a" "a \<le> 4" "bs = b1 # b2 # b3 # r"
      "unat b1 = 128 + x" "x < 64" "unat b2 = 128 + y" "y < 64" "unat b3 = 128 + z" "z < 64"
      "a = 0 \<longrightarrow> 16 \<le> x" "a = 4 \<longrightarrow> x < 16"
      "c = a * 262144 + x * 4096 + y * 64 + z" "n = 3"
proof -
  let ?a = "unat b0"
  consider "?a < 128" | "194 \<le> ?a \<and> ?a \<le> 223" | "224 \<le> ?a \<and> ?a \<le> 239"
    | "240 \<le> ?a \<and> ?a \<le> 244" | "128 \<le> ?a \<and> ?a < 194 \<or> 244 < ?a"
    by linarith
  then show thesis
  proof cases
    case 1
    have "c = ?a \<and> n = 0" using utf8_seq_D1 [OF assms 1] .
    then show ?thesis using one 1 by blast
  next
    case 2
    obtain b1 r where bs: "bs = b1 # r" and cont: "128 \<le> unat b1" "unat b1 \<le> 191"
      and c: "c = (?a - 192) * 64 + (unat b1 - 128)" and n: "n = 1"
      using utf8_seq_D2 [OF assms] 2 by blast
    obtain x where x: "unat b1 = 128 + x" "x < 64"
      using cont_split [OF cont] by blast
    have a: "?a = 192 + (?a - 192)" "2 \<le> ?a - 192" "?a - 192 < 32" using 2 by linarith+
    have "c = (?a - 192) * 64 + x" using c x by simp
    then show ?thesis using two [OF a bs x] n by blast
  next
    case 3
    obtain b1 b2 r where bs: "bs = b1 # b2 # r"
      and lo: "(if ?a = 224 then 160 else 128) \<le> unat b1"
      and hi: "unat b1 \<le> (if ?a = 237 then 159 else 191)"
      and cont: "128 \<le> unat b2" "unat b2 \<le> 191"
      and c: "c = (?a - 224) * 4096 + (unat b1 - 128) * 64 + (unat b2 - 128)"
      and n: "n = 2"
      using utf8_seq_D3 [OF assms] 3 by blast
    have cont1: "128 \<le> unat b1" "unat b1 \<le> 191"
      using lo hi by (cases "?a = 224"; cases "?a = 237"; simp)+
    obtain x where x: "unat b1 = 128 + x" "x < 64"
      using cont_split [OF cont1] by blast
    obtain y where y: "unat b2 = 128 + y" "y < 64"
      using cont_split [OF cont] by blast
    have a: "?a = 224 + (?a - 224)" "?a - 224 < 16" using 3 by linarith+
    have r1: "?a - 224 = 0 \<longrightarrow> 32 \<le> x"
    proof
      assume "?a - 224 = 0"
      then have "?a = 224" using 3 by linarith
      then have "160 \<le> unat b1" using lo by simp
      then show "32 \<le> x" using x by linarith
    qed
    have r2: "?a - 224 = 13 \<longrightarrow> x < 32"
    proof
      assume "?a - 224 = 13"
      then have "?a = 237" using 3 by linarith
      then have "unat b1 \<le> 159" using hi by simp
      then show "x < 32" using x by linarith
    qed
    have "c = (?a - 224) * 4096 + x * 64 + y" using c x y by simp
    then show ?thesis using three [OF a bs x y r1 r2] n by blast
  next
    case 4
    obtain b1 b2 b3 r where bs: "bs = b1 # b2 # b3 # r"
      and lo: "(if ?a = 240 then 144 else 128) \<le> unat b1"
      and hi: "unat b1 \<le> (if ?a = 244 then 143 else 191)"
      and cont2: "128 \<le> unat b2" "unat b2 \<le> 191"
      and cont3: "128 \<le> unat b3" "unat b3 \<le> 191"
      and c: "c = (?a - 240) * 262144 + (unat b1 - 128) * 4096 + (unat b2 - 128) * 64
                + (unat b3 - 128)"
      and n: "n = 3"
      using utf8_seq_D4 [OF assms] 4 by blast
    have cont1: "128 \<le> unat b1" "unat b1 \<le> 191"
      using lo hi by (cases "?a = 240"; cases "?a = 244"; simp)+
    obtain x where x: "unat b1 = 128 + x" "x < 64"
      using cont_split [OF cont1] by blast
    obtain y where y: "unat b2 = 128 + y" "y < 64"
      using cont_split [OF cont2] by blast
    obtain z where z: "unat b3 = 128 + z" "z < 64"
      using cont_split [OF cont3] by blast
    have a: "?a = 240 + (?a - 240)" "?a - 240 \<le> 4" using 4 by linarith+
    have r1: "?a - 240 = 0 \<longrightarrow> 16 \<le> x"
    proof
      assume "?a - 240 = 0"
      then have "?a = 240" using 4 by linarith
      then have "144 \<le> unat b1" using lo by simp
      then show "16 \<le> x" using x by linarith
    qed
    have r2: "?a - 240 = 4 \<longrightarrow> x < 16"
    proof
      assume "?a - 240 = 4"
      then have "?a = 244" using 4 by linarith
      then have "unat b1 \<le> 143" using hi by simp
      then show "x < 16" using x by linarith
    qed
    have "c = (?a - 240) * 262144 + x * 4096 + y * 64 + z" using c x y z by simp
    then show ?thesis using four [OF a bs x y z r1 r2] n by blast
  next
    case 5
    then show ?thesis using assms utf8_seq_D5 [OF 5, of bs] by simp
  qed
qed

lemma utf8_encode1_scalar: "utf8_encode1 c \<noteq> None \<longleftrightarrow> scalar c"
  by (auto simp: utf8_encode1_def scalar_def)

lemma utf8_seq_encode1:
  assumes "utf8_seq b0 bs = Some (c, n)"
  shows "n \<le> length bs \<and> utf8_encode1 c = Some (b0 # take n bs)"
  using assms
proof (cases rule: utf8_seq_cases)
  case one
  have "of_nat (unat b0) = b0" by simp
  then show ?thesis using one by (simp add: utf8_encode1_def)
next
  case (two a x b1 r)
  have lo: "128 \<le> c" and hi: "c < 2048" using two by linarith+
  have d: "c div 64 = a" "c mod 64 = x" using split2 [OF two(6), of a] two(7) by simp_all
  have "of_nat (192 + a) = b0" "of_nat (128 + x) = b1"
    using two(1,5) by (metis byte_of_unat)+
  then show ?thesis
    using two lo hi d by (simp add: utf8_encode1_def)
next
  case (three a x y b1 b2 r)
  have lo: "2048 \<le> c" using three by (cases "a = 0") simp_all
  have hi: "c < 65536" using three by linarith
  have ns: "\<not> (55296 \<le> c \<and> c \<le> 57343)"
  proof -
    consider "a \<le> 12" | "a = 13" | "14 \<le> a" by linarith
    then show ?thesis
    proof cases
      case 1
      then show ?thesis using three by linarith
    next
      case 2
      then have "x < 32" using three by simp
      then show ?thesis using 2 three by linarith
    next
      case 3
      then show ?thesis using three by linarith
    qed
  qed
  have d: "c div 4096 = a" "c div 64 mod 64 = x" "c mod 64 = y"
    using split3 [OF three(5,7), of a] three(10) by simp_all
  have "of_nat (224 + a) = b0" "of_nat (128 + x) = b1" "of_nat (128 + y) = b2"
    using three(1,4,6) by (metis byte_of_unat)+
  then show ?thesis
    using three(3,11) lo hi ns d by (simp add: utf8_encode1_def)
next
  case (four a x y z b1 b2 b3 r)
  have lo: "65536 \<le> c" using four by (cases "a = 0") simp_all
  have hi: "c < 1114112"
  proof (cases "a = 4")
    case True
    then have "x < 16" using four by simp
    then show ?thesis using True four by linarith
  next
    case False
    then have "a \<le> 3" using four by linarith
    then show ?thesis using four by linarith
  qed
  have d: "c div 262144 = a" "c div 4096 mod 64 = x" "c div 64 mod 64 = y" "c mod 64 = z"
    using split4 [OF four(5,7,9), of a] four(12) by simp_all
  have "of_nat (240 + a) = b0" "of_nat (128 + x) = b1" "of_nat (128 + y) = b2"
    "of_nat (128 + z) = b3"
    using four(1,4,6,8) by (metis byte_of_unat)+
  then show ?thesis
    using four(3,13) lo hi d by (simp add: utf8_encode1_def)
qed

lemma decomp3:
  fixes c :: nat
  shows "c = c div 4096 * 4096 + (c div 64 mod 64) * 64 + c mod 64"
proof -
  have 1: "c = c div 64 * 64 + c mod 64" by simp
  have 2: "c div 64 = c div 64 div 64 * 64 + c div 64 mod 64" by simp
  have 3: "c div 64 div 64 = c div 4096" by (simp add: div_mult2_eq)
  show ?thesis using 1 2 3 by linarith
qed

lemma decomp4:
  fixes c :: nat
  shows "c = c div 262144 * 262144 + (c div 4096 mod 64) * 4096 + (c div 64 mod 64) * 64
             + c mod 64"
proof -
  have 1: "c = c div 4096 * 4096 + (c div 64 mod 64) * 64 + c mod 64" by (rule decomp3)
  have 2: "c div 4096 = c div 4096 div 64 * 64 + c div 4096 mod 64" by simp
  have 3: "c div 4096 div 64 = c div 262144" by (simp add: div_mult2_eq)
  show ?thesis using 1 2 3 by linarith
qed

lemma utf8_encode1_seq:
  assumes "utf8_encode1 c = Some e"
  shows "\<exists>b0 t. e = b0 # t \<and> utf8_seq b0 (t @ rest) = Some (c, length t)"
proof -
  consider "c < 128" | "128 \<le> c \<and> c < 2048"
    | "2048 \<le> c \<and> c < 65536 \<and> \<not> (55296 \<le> c \<and> c \<le> 57343)"
    | "65536 \<le> c \<and> c < 1114112"
    | "55296 \<le> c \<and> c \<le> 57343 \<or> 1114112 \<le> c"
    by linarith
  then show ?thesis
  proof cases
    case 1
    then have e: "e = [of_nat c]" using assms by (simp add: utf8_encode1_def)
    have "unat (of_nat c :: byte) = c" using 1 by (simp add: unat_byte_of_nat)
    then show ?thesis using e 1 utf8_seq_1 [of "of_nat c" rest] by simp
  next
    case 2
    define a where "a = c div 64"
    define x where "x = c mod 64"
    have e: "e = [of_nat (192 + a), of_nat (128 + x)]"
      using assms 2 by (simp add: utf8_encode1_def a_def x_def)
    have c: "c = a * 64 + x" by (simp add: a_def x_def)
    have x: "x < 64" by (simp add: x_def)
    have a: "2 \<le> a" "a < 32" using 2 c x by linarith+
    have "192 + a < (256::nat)" using a x by linarith
    then have u1: "unat (of_nat (192 + a) :: byte) = 192 + a" by (rule unat_byte_of_nat)
    have "128 + x < (256::nat)" using a x by linarith
    then have u2: "unat (of_nat (128 + x) :: byte) = 128 + x" by (rule unat_byte_of_nat)
    show ?thesis
      using e utf8_seq_2 [OF u1 a u2 x, of rest] c by simp
  next
    case 3
    define a where "a = c div 4096"
    define x where "x = c div 64 mod 64"
    define y where "y = c mod 64"
    have e: "e = [of_nat (224 + a), of_nat (128 + x), of_nat (128 + y)]"
      using assms 3 by (simp add: utf8_encode1_def a_def x_def y_def)
    have c: "c = a * 4096 + x * 64 + y" unfolding a_def x_def y_def by (rule decomp3)
    have x: "x < 64" and y: "y < 64" by (simp_all add: x_def y_def)
    have a: "a < 16" using 3 c x y by linarith
    have r1: "a = 0 \<longrightarrow> 32 \<le> x" using 3 c x y by linarith
    have r2: "a = 13 \<longrightarrow> x < 32" using 3 c x y by linarith
    have "224 + a < (256::nat)" using a x y by linarith
    then have u1: "unat (of_nat (224 + a) :: byte) = 224 + a" by (rule unat_byte_of_nat)
    have "128 + x < (256::nat)" using a x y by linarith
    then have u2: "unat (of_nat (128 + x) :: byte) = 128 + x" by (rule unat_byte_of_nat)
    have "128 + y < (256::nat)" using a x y by linarith
    then have u3: "unat (of_nat (128 + y) :: byte) = 128 + y" by (rule unat_byte_of_nat)
    show ?thesis
      using e utf8_seq_3 [OF u1 a u2 x u3 y r1 r2, of rest] c by simp
  next
    case 4
    define a where "a = c div 262144"
    define x where "x = c div 4096 mod 64"
    define y where "y = c div 64 mod 64"
    define z where "z = c mod 64"
    have e: "e = [of_nat (240 + a), of_nat (128 + x), of_nat (128 + y), of_nat (128 + z)]"
      using assms 4 by (simp add: utf8_encode1_def a_def x_def y_def z_def)
    have c: "c = a * 262144 + x * 4096 + y * 64 + z"
      unfolding a_def x_def y_def z_def by (rule decomp4)
    have x: "x < 64" and y: "y < 64" and z: "z < 64" by (simp_all add: x_def y_def z_def)
    have a: "a \<le> 4" using 4 c x y z by linarith
    have r1: "a = 0 \<longrightarrow> 16 \<le> x" using 4 c x y z by linarith
    have r2: "a = 4 \<longrightarrow> x < 16" using 4 c x y z by linarith
    have "240 + a < (256::nat)" using a x y z by linarith
    then have u1: "unat (of_nat (240 + a) :: byte) = 240 + a" by (rule unat_byte_of_nat)
    have "128 + x < (256::nat)" using a x y z by linarith
    then have u2: "unat (of_nat (128 + x) :: byte) = 128 + x" by (rule unat_byte_of_nat)
    have "128 + y < (256::nat)" using a x y z by linarith
    then have u3: "unat (of_nat (128 + y) :: byte) = 128 + y" by (rule unat_byte_of_nat)
    have "128 + z < (256::nat)" using a x y z by linarith
    then have u4: "unat (of_nat (128 + z) :: byte) = 128 + z" by (rule unat_byte_of_nat)
    show ?thesis
      using e utf8_seq_4 [OF u1 a u2 x u3 y u4 z r1 r2, of rest] c by simp
  next
    case 5
    then show ?thesis using assms by (auto simp: utf8_encode1_def)
  qed
qed

lemma utf8_decode_encode:
  "utf8_decode bs = Some s \<Longrightarrow> utf8_encode s = Some bs"
proof (induction bs arbitrary: s rule: utf8_decode.induct)
  case 1
  then show ?case by simp
next
  case (2 b0 bs)
  from "2.prems" obtain c n s' where seq: "utf8_seq b0 bs = Some (c, n)"
    and dec: "utf8_decode (drop n bs) = Some s'" and s: "s = c # s'"
    by (auto split: option.splits)
  have enc: "utf8_encode s' = Some (drop n bs)"
    using "2.IH" [OF seq refl dec] .
  have "n \<le> length bs" "utf8_encode1 c = Some (b0 # take n bs)"
    using utf8_seq_encode1 [OF seq] by simp_all
  then show ?case using s enc by simp
qed

lemma utf8_encode_decode:
  "utf8_encode s = Some bs \<Longrightarrow> utf8_decode bs = Some s"
proof (induction s arbitrary: bs)
  case Nil
  then show ?case by simp
next
  case (Cons c s)
  from Cons.prems obtain e bs' where e: "utf8_encode1 c = Some e"
    and enc: "utf8_encode s = Some bs'" and bs: "bs = e @ bs'"
    by (auto split: option.splits)
  obtain b0 t where t: "e = b0 # t" "utf8_seq b0 (t @ bs') = Some (c, length t)"
    using utf8_encode1_seq [OF e, of bs'] by blast
  show ?case using Cons.IH [OF enc] t bs by simp
qed

lemma utf8_encode_scalar: "utf8_encode s \<noteq> None \<longleftrightarrow> list_all scalar s"
proof (induction s)
  case Nil
  then show ?case by simp
next
  case (Cons c s)
  show ?case
  proof (cases "utf8_encode1 c")
    case None
    then have "\<not> scalar c" using utf8_encode1_scalar [of c] by simp
    then show ?thesis using None by simp
  next
    case (Some e)
    then have "scalar c" using utf8_encode1_scalar [of c] by simp
    then show ?thesis using Some Cons.IH by (cases "utf8_encode s") simp_all
  qed
qed

lemma utf8_decode_scalar: "utf8_decode bs = Some s \<Longrightarrow> list_all scalar s"
  using utf8_decode_encode [of bs s] utf8_encode_scalar [of s] by simp

subsection \<open>Line endings\<close>

lemma universal_newlines_other:
  "c \<noteq> CR \<Longrightarrow> universal_newlines (c # s) = c # universal_newlines s"
  by (cases s) simp_all

lemma universal_newlines_CRLF:
  "universal_newlines (CR # LF # s) = LF # universal_newlines s"
  by simp

lemma CR_neq_LF: "CR \<noteq> LF"
  by (simp add: CR_def LF_def)

lemma universal_newlines_no_CR: "CR \<notin> set (universal_newlines s)"
  using CR_neq_LF by (induction s rule: universal_newlines.induct) auto

lemma set_universal_newlines: "set (universal_newlines s) \<subseteq> insert LF (set s)"
  by (induction s rule: universal_newlines.induct) auto

lemma universal_newlines_id: "CR \<notin> set s \<Longrightarrow> universal_newlines s = s"
  by (induction s) (simp_all add: universal_newlines_other)

lemma write_newlines_Nil: "write_newlines p [] = []"
  by (simp add: write_newlines_def)

lemma write_newlines_Cons:
  "write_newlines p (c # s) = (if c = LF then linesep p else [c]) @ write_newlines p s"
  by (simp add: write_newlines_def)

lemma write_newlines_Posix: "write_newlines Posix s = s"
  by (induction s) (simp_all add: write_newlines_Nil write_newlines_Cons)

lemma read_write_newlines:
  "CR \<notin> set s \<Longrightarrow> universal_newlines (write_newlines p s) = s"
proof (induction s)
  case Nil
  then show ?case by (simp add: write_newlines_Nil)
next
  case (Cons c s)
  then have IH: "universal_newlines (write_newlines p s) = s" and c: "c \<noteq> CR" by auto
  show ?case
  proof (cases "c = LF")
    case True
    then show ?thesis
      using IH CR_neq_LF
      by (cases p) (simp_all add: write_newlines_Cons universal_newlines_other
          universal_newlines_CRLF del: universal_newlines.simps)
  next
    case False
    then show ?thesis
      using IH c by (simp add: write_newlines_Cons universal_newlines_other
          del: universal_newlines.simps)
  qed
qed

lemma set_write_newlines: "set (write_newlines p s) \<subseteq> insert CR (set s)"
  by (induction s) (cases p; auto simp: write_newlines_Nil write_newlines_Cons)+

lemma scalar_CR_LF: "scalar CR" "scalar LF"
  by (simp_all add: scalar_def CR_def LF_def)

lemma scalar_new_text: "list_all scalar new_text"
  using new_text_ascii by (auto simp: list_all_iff scalar_def)

lemma scalar_str_replace:
  "list_all scalar s \<Longrightarrow> list_all scalar new \<Longrightarrow> list_all scalar (str_replace old new s)"
  using set_str_replace [of old new s] by (auto simp: list_all_iff)

lemma scalar_universal_newlines: "list_all scalar s \<Longrightarrow> list_all scalar (universal_newlines s)"
  using set_universal_newlines [of s] scalar_CR_LF by (auto simp: list_all_iff)

lemma scalar_write_newlines: "list_all scalar s \<Longrightarrow> list_all scalar (write_newlines p s)"
  using set_write_newlines [of p s] scalar_CR_LF by (auto simp: list_all_iff)

lemma CR_notin_new_text': "CR \<notin> set new_text"
  using CR_notin_new_text by (simp add: CR_def)

lemma str_replace_no_CR:
  "CR \<notin> set s \<Longrightarrow> CR \<notin> set (str_replace old_text new_text s)"
  using set_str_replace [of old_text new_text s] CR_notin_new_text' by auto

section \<open>Properties of the script\<close>

subsection \<open>The scan finds the occurrences\<close>

lemma spec_scan_parts_single: "spec_scan_parts old [g] \<longleftrightarrow> \<not> occurs_in old g"
  by (simp add: spec_scan_parts_def)

lemma spec_scan_parts_Cons:
  "gs \<noteq> [] \<Longrightarrow>
   spec_scan_parts old (g # gs) \<longleftrightarrow> \<not> occurs_in old (g @ butlast old) \<and> spec_scan_parts old gs"
  by (auto simp: spec_scan_parts_def)

lemma str_replace_scan_parts:
  "old \<noteq> [] \<Longrightarrow> spec_scan_parts old gs \<Longrightarrow>
   str_replace old new (str_join old gs) = str_join new gs"
  using str_replace_str_join [of old gs new] by (simp add: spec_scan_parts_def)

lemma split_from_scan_parts:
  "old \<noteq> [] \<Longrightarrow> spec_scan_parts old (split_from old [] s)"
proof (induction s rule: length_induct)
  case (1 s)
  show ?case
  proof (cases s)
    case Nil
    then show ?thesis using 1(2) by (simp add: spec_scan_parts_single)
  next
    case (Cons c cs)
    show ?thesis
    proof (cases "prefix old (c # cs)")
      case True
      then obtain r where r: "c # cs = old @ r" by (auto simp: prefix_def)
      have len: "length r < length s" using r Cons 1(2)
        by (metis length_append length_greater_0_conv less_add_same_cancel2)
      have P: "split_from old [] s = [] # split_from old [] r"
        using 1(2) Cons r by (simp add: split_from_match)
      have "length (butlast old) < length old"
        using 1(2) by (cases old rule: rev_cases) simp_all
      then have "\<not> occurs_in old ([] @ butlast old)"
        using occurs_in_length [of old "butlast old"] by auto
      then show ?thesis
        unfolding P using 1(1) len 1(2) by (simp add: spec_scan_parts_Cons)
    next
      case False
      let ?P = "split_from old [] cs"
      have P: "split_from old [] s = (c # hd ?P) # tl ?P"
        using False Cons split_from_acc [of old "[c]" cs] by (simp add: split_from_step)
      have IH: "spec_scan_parts old ?P" using 1 Cons by simp
      have cs: "cs = str_join old ?P" using str_join_split_from [OF 1(2)] by simp
      show ?thesis
      proof (cases "tl ?P = []")
        case True
        then have single: "?P = [hd ?P]"
          by (metis list.collapse split_from_not_Nil)
        then have "cs = hd ?P" using cs by (metis str_join.simps(2))
        moreover have "\<not> occurs_in old (hd ?P)"
          using IH single by (metis spec_scan_parts_single)
        ultimately show ?thesis
          unfolding P using True False by (simp add: spec_scan_parts_single)
      next
        case ne: False
        have split: "?P = hd ?P # tl ?P" by simp
        have tail: "spec_scan_parts old (tl ?P)" and
          head: "\<not> occurs_in old (hd ?P @ butlast old)"
          using IH spec_scan_parts_Cons [OF ne, of old "hd ?P"] by simp_all
        have "cs = hd ?P @ old @ str_join old (tl ?P)"
          using cs str_join_Cons [OF ne, of old "hd ?P"] by simp
        then have "\<not> prefix old (c # hd ?P @ old @ str_join old (tl ?P))"
          using False by simp
        then have "\<not> prefix old (c # hd ?P @ butlast old)"
          using 1(2) by (metis append.assoc append_Cons append_butlast_last_id prefix_prefix)
        then have "\<not> occurs_in old ((c # hd ?P) @ butlast old)"
          using head by simp
        then show ?thesis
          unfolding P using tail ne by (simp add: spec_scan_parts_Cons)
      qed
    qed
  qed
qed

subsection \<open>The runs of the script\<close>

lemma main_missing:
  "files w path = None \<Longrightarrow> main pf w = (Some FileNotFoundError, w)"
  by (simp add: main_def open_read_def)

lemma main_unreadable:
  "files w path = Some f \<Longrightarrow> \<not> readable f \<Longrightarrow> main pf w = (Some PermissionError, w)"
  by (simp add: main_def open_read_def)

lemma main_undecodable:
  "files w path = Some f \<Longrightarrow> readable f \<Longrightarrow> utf8_decode (data f) = None \<Longrightarrow>
   main pf w = (Some UnicodeDecodeError, w)"
  by (simp add: main_def open_read_def read_text_def)

lemma main_unwritable:
  "files w path = Some f \<Longrightarrow> readable f \<Longrightarrow> utf8_decode (data f) = Some s \<Longrightarrow>
   \<not> writable f \<Longrightarrow> main pf w = (Some PermissionError, w)"
  by (simp add: main_def open_read_def read_text_def open_write_def)

lemma content_no_CR:
  "CR \<notin> set (str_replace old_text new_text (universal_newlines s))"
  using str_replace_no_CR [OF universal_newlines_no_CR] .

lemma content_encodable:
  assumes "utf8_decode bs = Some s"
  shows "\<exists>out. utf8_encode (write_newlines pf (str_replace old_text new_text (universal_newlines s)))
           = Some out"
proof -
  have "list_all scalar s" using utf8_decode_scalar [OF assms] .
  then have "list_all scalar
      (write_newlines pf (str_replace old_text new_text (universal_newlines s)))"
    by (intro scalar_write_newlines scalar_str_replace scalar_universal_newlines
        scalar_new_text)
  then show ?thesis using utf8_encode_scalar by blast
qed

lemma main_success:
  assumes "files w path = Some f" "readable f" "writable f"
    and "utf8_decode (data f) = Some s"
    and "utf8_encode (write_newlines pf (str_replace old_text new_text (universal_newlines s)))
         = Some out"
  shows "main pf w =
    (None, \<lparr>files = (files w)(path \<mapsto> f\<lparr>data := out\<rparr>),
            stdout = stdout w @ [''Replacement complete''],
            trace = trace w @ [Truncated path, Written path out,
                               Printed ''Replacement complete'']\<rparr>)"
  using assms
  by (simp add: main_def open_read_def read_text_def open_write_def write_text_def
      print_line_def Let_def)

lemma file_text_written:
  assumes "files w' path = Some f'" "data f' = out"
    and "utf8_encode (write_newlines pf t) = Some out" and "CR \<notin> set t"
  shows "file_text w' path = Some t"
  using assms utf8_encode_decode [OF assms(3)] read_write_newlines [OF assms(4), of pf]
  by (simp add: file_text_def)

subsection \<open>ASCII texts\<close>

lemma utf8_encode_ascii: "\<forall>c \<in> set s. c < 128 \<Longrightarrow> utf8_encode s = Some (ascii_bytes s)"
  by (induction s) (simp_all add: ascii_bytes_def utf8_encode1_def)

lemma utf8_decode_ascii: "\<forall>c \<in> set s. c < 128 \<Longrightarrow> utf8_decode (ascii_bytes s) = Some s"
  using utf8_encode_ascii utf8_encode_decode by blast

lemma old_text_ascii: "\<forall>c \<in> set old_text. c < 128"
  by (simp add: old_text_def)

subsection \<open>Every run of the script\<close>

lemma main_outcomes:
  obtains
    (missing) "files w path = None" "main pf w = (Some FileNotFoundError, w)"
  | (unreadable) f where "files w path = Some f" "\<not> readable f"
      "main pf w = (Some PermissionError, w)"
  | (undecodable) f where "files w path = Some f" "readable f"
      "utf8_decode (data f) = None" "main pf w = (Some UnicodeDecodeError, w)"
  | (unwritable) f s where "files w path = Some f" "readable f"
      "utf8_decode (data f) = Some s" "\<not> writable f" "main pf w = (Some PermissionError, w)"
  | (success) f s out where "files w path = Some f" "readable f" "writable f"
      "utf8_decode (data f) = Some s"
      "utf8_encode (write_newlines pf (str_replace old_text new_text (universal_newlines s)))
       = Some out"
      "main pf w =
        (None, \<lparr>files = (files w)(path \<mapsto> f\<lparr>data := out\<rparr>),
                stdout = stdout w @ [''Replacement complete''],
                trace = trace w @ [Truncated path, Written path out,
                                   Printed ''Replacement complete'']\<rparr>)"
proof (cases "files w path")
  case None
  then show ?thesis using missing main_missing by blast
next
  case (Some f)
  show ?thesis
  proof (cases "readable f")
    case False
    then show ?thesis using unreadable Some main_unreadable by blast
  next
    case r: True
    show ?thesis
    proof (cases "utf8_decode (data f)")
      case None
      then show ?thesis using undecodable Some r main_undecodable by blast
    next
      case d: (Some s)
      show ?thesis
      proof (cases "writable f")
        case False
        then show ?thesis using unwritable Some r d main_unwritable by blast
      next
        case True
        obtain out where out: "utf8_encode (write_newlines pf
            (str_replace old_text new_text (universal_newlines s))) = Some out"
          using content_encodable [OF d] by blast
        show ?thesis
          using success [OF Some r True d out] main_success [OF Some r True d out] by blast
      qed
    qed
  qed
qed

lemma file_text_SomeD:
  assumes "file_text w p = Some content"
  obtains f s where "files w p = Some f" "utf8_decode (data f) = Some s"
    "content = universal_newlines s"
  using assms by (auto simp: file_text_def split: option.splits)

lemma main_text:
  assumes f: "files w path = Some f" "readable f" "writable f"
    and ft: "file_text w path = Some content"
  shows "fst (main pf w) = None"
    and "file_text (snd (main pf w)) path = Some (str_replace old_text new_text content)"
    and "map_option data (files (snd (main pf w)) path)
         = utf8_encode (write_newlines pf (str_replace old_text new_text content))"
    and "map_option readable (files (snd (main pf w)) path) = Some True"
    and "map_option writable (files (snd (main pf w)) path) = Some True"
    and "q \<noteq> path \<Longrightarrow> files (snd (main pf w)) q = files w q"
    and "stdout (snd (main pf w)) = stdout w @ [''Replacement complete'']"
proof -
  obtain s where s: "utf8_decode (data f) = Some s" and c: "content = universal_newlines s"
    using ft f(1) by (auto elim!: file_text_SomeD)
  let ?t = "str_replace old_text new_text content"
  obtain out where out: "utf8_encode (write_newlines pf ?t) = Some out"
    using content_encodable [OF s] c by blast
  have m: "main pf w =
    (None, \<lparr>files = (files w)(path \<mapsto> f\<lparr>data := out\<rparr>),
            stdout = stdout w @ [''Replacement complete''],
            trace = trace w @ [Truncated path, Written path out,
                               Printed ''Replacement complete'']\<rparr>)"
    using main_success [OF f s] out c by simp
  show "fst (main pf w) = None" using m by simp
  have "CR \<notin> set ?t" using content_no_CR c by simp
  then show "file_text (snd (main pf w)) path = Some ?t"
    using file_text_written [OF _ _ out, of "snd (main pf w)" "f\<lparr>data := out\<rparr>"] m by simp
  show "map_option data (files (snd (main pf w)) path) = utf8_encode (write_newlines pf ?t)"
    using m out by simp
  show "map_option readable (files (snd (main pf w)) path) = Some True"
    using m f by simp
  show "map_option writable (files (snd (main pf w)) path) = Some True"
    using m f by simp
  show "q \<noteq> path \<Longrightarrow> files (snd (main pf w)) q = files w q"
    using m by simp
  show "stdout (snd (main pf w)) = stdout w @ [''Replacement complete'']"
    using m by simp
qed

lemma world_with_file_simps:
  "files (world_with_file bs) path = Some \<lparr>data = bs, readable = True, writable = True\<rparr>"
  "stdout (world_with_file bs) = []"
  "trace (world_with_file bs) = []"
  by (simp_all add: world_with_file_def)

lemma file_text_ascii:
  assumes "\<forall>c \<in> set s. c < 128" and "CR \<notin> set s"
  shows "file_text (world_with_file (ascii_bytes s)) path = Some s"
  using utf8_decode_ascii [OF assms(1)] universal_newlines_id [OF assms(2)]
  by (simp add: file_text_def world_with_file_simps)

lemma CR_notin_old_text: "CR \<notin> set old_text"
  by (simp add: old_text_def CR_def)

lemma replace_old_text: "str_replace old_text new_text old_text = new_text"
  using str_replace_match [OF old_text_not_Nil, of new_text "[]"] old_text_not_Nil by simp

lemma run_depends_on_target:
  assumes same: "files w1 path = files w2 path"
  shows "fst (main pf1 w1) = fst (main pf2 w2)"
    and "file_text (snd (main pf1 w1)) path = file_text (snd (main pf2 w2)) path"
    and "drop (length (stdout w1)) (stdout (snd (main pf1 w1)))
         = drop (length (stdout w2)) (stdout (snd (main pf2 w2)))"
    and "pf1 = pf2 \<Longrightarrow> files (snd (main pf1 w1)) path = files (snd (main pf2 w2)) path"
proof -
  have ft: "file_text w1 path = file_text w2 path"
    using same by (simp add: file_text_def)
  have "fst (main pf1 w1) = fst (main pf2 w2)
    \<and> file_text (snd (main pf1 w1)) path = file_text (snd (main pf2 w2)) path
    \<and> drop (length (stdout w1)) (stdout (snd (main pf1 w1)))
         = drop (length (stdout w2)) (stdout (snd (main pf2 w2)))
    \<and> (pf1 = pf2 \<longrightarrow> files (snd (main pf1 w1)) path = files (snd (main pf2 w2)) path)"
  proof (rule main_outcomes [where w = w1 and pf = pf1])
    assume a: "files w1 path = None" "main pf1 w1 = (Some FileNotFoundError, w1)"
    have m1: "main pf w1 = (Some FileNotFoundError, w1)" for pf
      using a(1) main_missing by simp
    have m2: "main pf w2 = (Some FileNotFoundError, w2)" for pf
      using a(1) same main_missing by simp
    show ?thesis by (simp add: m1 m2 same ft)
  next
    fix f assume a: "files w1 path = Some f" "\<not> readable f"
      "main pf1 w1 = (Some PermissionError, w1)"
    have m1: "main pf w1 = (Some PermissionError, w1)" for pf
      using a(1,2) main_unreadable by simp
    have m2: "main pf w2 = (Some PermissionError, w2)" for pf
      using a(1,2) same main_unreadable by simp
    show ?thesis by (simp add: m1 m2 same ft)
  next
    fix f assume a: "files w1 path = Some f" "readable f" "utf8_decode (data f) = None"
      "main pf1 w1 = (Some UnicodeDecodeError, w1)"
    have m1: "main pf w1 = (Some UnicodeDecodeError, w1)" for pf
      using a(1,2,3) main_undecodable by simp
    have m2: "main pf w2 = (Some UnicodeDecodeError, w2)" for pf
      using a(1,2,3) same main_undecodable by simp
    show ?thesis by (simp add: m1 m2 same ft)
  next
    fix f s assume a: "files w1 path = Some f" "readable f" "utf8_decode (data f) = Some s"
      "\<not> writable f" "main pf1 w1 = (Some PermissionError, w1)"
    have m1: "main pf w1 = (Some PermissionError, w1)" for pf
      using main_unwritable [of w1 f s pf] a(1,2,3,4) by simp
    have m2: "main pf w2 = (Some PermissionError, w2)" for pf
      using main_unwritable [of w2 f s pf] a(1,2,3,4) same by simp
    show ?thesis by (simp add: m1 m2 same ft)
  next
    fix f s out
    assume a: "files w1 path = Some f" "readable f" "writable f"
      "utf8_decode (data f) = Some s"
      and out: "utf8_encode (write_newlines pf1
          (str_replace old_text new_text (universal_newlines s))) = Some out"
    have f2: "files w2 path = Some f" using a(1) same by simp
    have t1: "file_text w1 path = Some (universal_newlines s)"
      using a(1,4) by (simp add: file_text_def)
    have t2: "file_text w2 path = Some (universal_newlines s)"
      using t1 ft by simp
    note m1 = main_text [OF a(1,2,3) t1, where pf = pf1]
    note m2 = main_text [OF f2 a(2,3) t2, where pf = pf2]
    have same_pf: "files (snd (main pf1 w1)) path = files (snd (main pf2 w2)) path"
      if "pf1 = pf2"
    proof -
      obtain g1 where g1: "files (snd (main pf1 w1)) path = Some g1"
        using m1(4) by (cases "files (snd (main pf1 w1)) path") simp_all
      obtain g2 where g2: "files (snd (main pf2 w2)) path = Some g2"
        using m2(4) by (cases "files (snd (main pf2 w2)) path") simp_all
      have "Some (data g1) = Some (data g2)"
        using m1(3) m2(3) g1 g2 that by simp
      moreover have "readable g1 = readable g2" "writable g1 = writable g2"
        using m1(4,5) m2(4,5) g1 g2 by simp_all
      ultimately have "data g1 = data g2" "readable g1 = readable g2" "writable g1 = writable g2"
        by simp_all
      then have "g1 = g2" by simp
      then show ?thesis using g1 g2 by simp
    qed
    show ?thesis
      using m1(1,2,7) m2(1,2,7) same_pf by auto
  qed
  then show "fst (main pf1 w1) = fst (main pf2 w2)"
    and "file_text (snd (main pf1 w1)) path = file_text (snd (main pf2 w2)) path"
    and "drop (length (stdout w1)) (stdout (snd (main pf1 w1)))
         = drop (length (stdout w2)) (stdout (snd (main pf2 w2)))"
    and "pf1 = pf2 \<Longrightarrow> files (snd (main pf1 w1)) path = files (snd (main pf2 w2)) path"
    by simp_all
qed

lemma run_on_old_text:
  "fst (main pf (world_with_file (ascii_bytes old_text))) = None"
  "file_text (snd (main pf (world_with_file (ascii_bytes old_text)))) path = Some new_text"
  "stdout (snd (main pf (world_with_file (ascii_bytes old_text)))) = [''Replacement complete'']"
  using main_text [OF world_with_file_simps(1) _ _
      file_text_ascii [OF old_text_ascii CR_notin_old_text], where pf = pf]
  by (simp_all add: replace_old_text world_with_file_simps)

lemma short_gap_free: "c \<noteq> 34 \<Longrightarrow> \<not> occurs_in old_text (c # butlast old_text)"
proof -
  assume c: "c \<noteq> 34"
  have "\<not> prefix (34 # tl old_text) (c # butlast old_text)" using c by simp
  then have 1: "\<not> prefix old_text (c # butlast old_text)" using old_text_Cons by metis
  have "length (butlast old_text) < length old_text" using length_old_text by simp
  then have 2: "\<not> occurs_in old_text (butlast old_text)"
    using occurs_in_length [of old_text "butlast old_text"] by auto
  show ?thesis using 1 2 by simp
qed

lemma second_run:
  assumes f: "files w path = Some f" "readable f" "writable f"
    and ft: "file_text w path = Some content"
    and free: "\<not> occurs_in old_text (str_replace old_text new_text content)"
  shows "fst (main pf (snd (main pf w))) = None"
    and "files (snd (main pf (snd (main pf w)))) = files (snd (main pf w))"
proof -
  obtain s where s: "utf8_decode (data f) = Some s" and c: "content = universal_newlines s"
    using ft f(1) by (auto elim!: file_text_SomeD)
  let ?t = "str_replace old_text new_text content"
  obtain out where out: "utf8_encode (write_newlines pf ?t) = Some out"
    using content_encodable [OF s] c by blast
  define w1 where "w1 = snd (main pf w)"
  have m: "main pf w =
    (None, \<lparr>files = (files w)(path \<mapsto> f\<lparr>data := out\<rparr>),
            stdout = stdout w @ [''Replacement complete''],
            trace = trace w @ [Truncated path, Written path out,
                               Printed ''Replacement complete'']\<rparr>)"
    using main_success [OF f s] out c by simp
  have f1: "files w1 path = Some (f\<lparr>data := out\<rparr>)" "readable (f\<lparr>data := out\<rparr>)"
    "writable (f\<lparr>data := out\<rparr>)"
    using m f by (simp_all add: w1_def)
  have dec: "utf8_decode (data (f\<lparr>data := out\<rparr>)) = Some (write_newlines pf ?t)"
    using utf8_encode_decode [OF out] by simp
  have noCR: "CR \<notin> set ?t" using content_no_CR c by simp
  have rt: "universal_newlines (write_newlines pf ?t) = ?t"
    using read_write_newlines [OF noCR] .
  have same: "str_replace old_text new_text ?t = ?t"
    using str_replace_no_occurrence [OF free] .
  have out2: "utf8_encode (write_newlines pf
      (str_replace old_text new_text (universal_newlines (write_newlines pf ?t)))) = Some out"
    using rt same out by simp
  have m2: "main pf w1 =
    (None, \<lparr>files = (files w1)(path \<mapsto> f\<lparr>data := out\<rparr>\<lparr>data := out\<rparr>),
            stdout = stdout w1 @ [''Replacement complete''],
            trace = trace w1 @ [Truncated path, Written path out,
                                Printed ''Replacement complete'']\<rparr>)"
    using main_success [OF f1 dec out2] .
  show "fst (main pf (snd (main pf w))) = None"
    using m2 by (simp add: w1_def)
  have "(files w1)(path \<mapsto> f\<lparr>data := out\<rparr>\<lparr>data := out\<rparr>) = files w1"
    using f1(1) by (auto simp: fun_eq_iff)
  then show "files (snd (main pf (snd (main pf w)))) = files (snd (main pf w))"
    using m2 by (simp add: w1_def)
qed

subsection \<open>A run on a file without the old literal\<close>

lemma utf8_seq_ascii:
  assumes "utf8_seq b0 bs = Some (c, n)" and "c < 128"
  shows "c = unat b0"
  using assms(1)
proof (cases rule: utf8_seq_cases)
  case one
  then show ?thesis by simp
next
  case (two a x b1 r)
  then show ?thesis using assms(2) by linarith
next
  case (three a x y b1 b2 r)
  then show ?thesis using assms(2) by (cases "a = 0") simp_all
next
  case (four a x y z b1 b2 b3 r)
  then show ?thesis using assms(2) by (cases "a = 0") simp_all
qed

lemma utf8_decode_no_CR:
  "utf8_decode bs = Some s \<Longrightarrow> 13 \<notin> set bs \<Longrightarrow> CR \<notin> set s"
proof (induction bs arbitrary: s rule: utf8_decode.induct)
  case 1
  then show ?case by simp
next
  case (2 b0 bs)
  from "2.prems"(1) obtain c n s' where seq: "utf8_seq b0 bs = Some (c, n)"
    and dec: "utf8_decode (drop n bs) = Some s'" and s: "s = c # s'"
    by (auto split: option.splits)
  have "13 \<notin> set (drop n bs)"
    using "2.prems"(2) set_drop_subset [of n bs] by auto
  then have tail: "CR \<notin> set s'" using "2.IH" [OF seq refl dec] by simp
  have "c \<noteq> CR"
  proof
    assume "c = CR"
    then have c: "c = 13" by (simp add: CR_def)
    then have "unat b0 = 13" using utf8_seq_ascii [OF seq] by simp
    then have "b0 = 13" by (metis byte_of_unat of_nat_numeral)
    then show False using "2.prems"(2) by simp
  qed
  then show ?case using s tail by simp
qed

lemma absent_literal_run:
  assumes f: "files w path = Some f" "readable f" "writable f"
    and ft: "file_text w path = Some content"
    and free: "\<not> occurs_in old_text content"
  shows "fst (main pf w) = None"
    and "file_text (snd (main pf w)) path = Some content"
    and "pf = Posix \<Longrightarrow> 13 \<notin> set (data f) \<Longrightarrow> files (snd (main pf w)) = files w"
proof -
  have same: "str_replace old_text new_text content = content"
    using str_replace_no_occurrence [OF free] .
  show "fst (main pf w) = None" using main_text(1) [OF f ft] .
  show "file_text (snd (main pf w)) path = Some content"
    using main_text(2) [OF f ft, where pf = pf] same by simp
  show "files (snd (main pf w)) = files w" if pf: "pf = Posix" and nocr: "13 \<notin> set (data f)"
  proof -
    obtain s where s: "utf8_decode (data f) = Some s" and c: "content = universal_newlines s"
      using ft f(1) by (auto elim!: file_text_SomeD)
    have "CR \<notin> set s" using utf8_decode_no_CR [OF s nocr] .
    then have cs: "content = s" using c universal_newlines_id by simp
    have out: "utf8_encode (write_newlines pf
        (str_replace old_text new_text (universal_newlines s))) = Some (data f)"
      using same c cs pf utf8_decode_encode [OF s] by (simp add: write_newlines_Posix)
    have "main pf w =
      (None, \<lparr>files = (files w)(path \<mapsto> f\<lparr>data := data f\<rparr>),
              stdout = stdout w @ [''Replacement complete''],
              trace = trace w @ [Truncated path, Written path (data f),
                                 Printed ''Replacement complete'']\<rparr>)"
      using main_success [OF f s out] .
    moreover have "(files w)(path \<mapsto> f\<lparr>data := data f\<rparr>) = files w"
      using f(1) by (auto simp: fun_eq_iff)
    ultimately show ?thesis by simp
  qed
qed

lemma file_text_CR: "file_text (world_with_file [13]) path = Some [LF]"
  by (simp add: file_text_def world_with_file_simps utf8_seq_def CR_def)

lemma LF_free: "\<not> occurs_in old_text [LF]"
  using occurs_in_length [of old_text "[LF]"] length_old_text by auto

subsection \<open>The invariant of the specification\<close>

lemma spec_one_changed_length:
  assumes "spec_one_occurrence_changed old new before after"
  shows "length after + length old = length before + length new"
proof -
  obtain i where mem: "i \<in> set [0 ..< Suc (length before)]"
    and t: "take i after = take i before"
    and p1: "prefix old (drop i before)" and p2: "prefix new (drop i after)"
    and d: "drop (i + length new) after = drop (i + length old) before"
    using assms unfolding spec_one_occurrence_changed_def list_ex_iff by blast
  have i: "i \<le> length before" using mem by auto
  have l1: "length old \<le> length before - i" using prefix_length_le [OF p1] by simp
  have l2: "length new \<le> length after - i" using prefix_length_le [OF p2] by simp
  have "min (length after) i = min (length before) i"
    using arg_cong [OF t, of length] by simp
  then have i2: "i \<le> length after" using i by linarith
  have e: "length after - (i + length new) = length before - (i + length old)"
    using arg_cong [OF d, of length] by simp
  show ?thesis using i i2 l1 l2 e by linarith
qed

lemma spec_one_changedI:
  "spec_one_occurrence_changed old new (g @ old @ h) (g @ new @ h)"
  unfolding spec_one_occurrence_changed_def list_ex_iff
  by (rule bexI [of _ "length g"]) simp_all

lemma scan_parts_at_most_one:
  assumes "gs \<noteq> []" "length gs \<le> 2"
  shows "spec_at_most_one_changed old new (str_join old gs) (str_join new gs)"
proof -
  consider g where "gs = [g]" | g h where "gs = [g, h]"
    using assms by (cases gs; cases "tl gs"; cases "tl (tl gs)") auto
  then show ?thesis
  proof cases
    case 1
    then show ?thesis by (simp add: spec_at_most_one_changed_def)
  next
    case 2
    then show ?thesis
      using spec_one_changedI [of old new g h] by (simp add: spec_at_most_one_changed_def)
  qed
qed

lemma replace_old_old: "str_replace old_text new_text (old_text @ old_text) = new_text @ new_text"
  using str_replace_match [OF old_text_not_Nil, of new_text old_text] replace_old_text
  by simp

lemma two_occurrences_changed:
  "\<not> spec_at_most_one_changed old_text new_text (old_text @ old_text) (new_text @ new_text)"
proof
  assume "spec_at_most_one_changed old_text new_text (old_text @ old_text) (new_text @ new_text)"
  then consider "new_text @ new_text = old_text @ old_text"
    | "spec_one_occurrence_changed old_text new_text (old_text @ old_text) (new_text @ new_text)"
    by (auto simp: spec_at_most_one_changed_def)
  then show False
  proof cases
    case 1
    then have "length (new_text @ new_text) = length (old_text @ old_text)" by simp
    then show False using length_old_text length_new_text by simp
  next
    case 2
    then show False
      using spec_one_changed_length [OF 2] length_old_text length_new_text by simp
  qed
qed

subsection \<open>Exact matching\<close>

lemma other_first_free:
  assumes "c \<noteq> 34" and "length r < length old_text"
  shows "\<not> occurs_in old_text (c # r)"
proof -
  have "\<not> prefix (34 # tl old_text) (c # r)" using assms(1) by simp
  then have 1: "\<not> prefix old_text (c # r)" using old_text_Cons by metis
  have 2: "\<not> occurs_in old_text r"
    using occurs_in_length [of old_text r] assms(2) by auto
  show ?thesis using 1 2 by simp
qed

lemma utf8_round_trip:
  "list_all scalar s \<Longrightarrow> \<exists>bs. utf8_encode s = Some bs \<and> utf8_decode bs = Some s"
  using utf8_encode_scalar [of s] utf8_encode_decode [of s] by auto

lemma replace_is_join_of_split:
  assumes "str_split old s = Some gs"
  shows "str_join old gs = s" and "str_replace old new s = str_join new gs"
    and "spec_scan_parts old gs"
proof -
  have old: "old \<noteq> []" and gs: "gs = split_from old [] s"
    using assms by (auto simp: str_split_def split: if_splits)
  show "str_join old gs = s" using str_join_split_from [OF old] gs by simp
  show "str_replace old new s = str_join new gs" using str_replace_split_from [OF old] gs by simp
  show "spec_scan_parts old gs" using split_from_scan_parts [OF old] gs by simp
qed

subsection \<open>The model on small inputs\<close>

lemma utf8_examples:
  "utf8_decode [0x41] = Some [0x41]"
  "utf8_decode [0xC3, 0xA9] = Some [0xE9]"
  "utf8_decode [0xE2, 0x80, 0x9C] = Some [0x201C]"
  "utf8_decode [0xF0, 0x9F, 0x98, 0x80] = Some [0x1F600]"
  "utf8_decode [0xEF, 0xBB, 0xBF] = Some [0xFEFF]"
  "utf8_decode [0xC0, 0x80] = None"
  "utf8_decode [0xED, 0xA0, 0x80] = None"
  "utf8_decode [0xF4, 0x90, 0x80, 0x80] = None"
  "utf8_decode [0xE2, 0x80] = None"
  "utf8_encode [0x201C] = Some [0xE2, 0x80, 0x9C]"
  "utf8_encode [0x1F600] = Some [0xF0, 0x9F, 0x98, 0x80]"
  "utf8_encode [0xD800] = None"
  by (simp_all add: utf8_seq_def is_cont_def utf8_encode1_def)

lemma newline_examples:
  "universal_newlines [97, CR, LF, 98, CR, 99, LF] = [97, LF, 98, LF, 99, LF]"
  "write_newlines Posix [97, LF, 98] = [97, LF, 98]"
  "write_newlines Windows [97, LF, 98] = [97, CR, LF, 98]"
  by (simp_all add: write_newlines_def CR_def LF_def)

lemma replace_examples:
  "str_replace [1, 1] [0] [1, 1, 1, 2, 1, 1, 1, 1, 3 :: nat] = [0, 1, 2, 0, 0, 3]"
  "str_replace [] [0] [1, 2, 3 :: nat] = [0, 1, 0, 2, 0, 3, 0]"
  "split_from [1, 1] [] [1, 1, 1, 2, 1, 1, 1, 1, 3 :: nat] = [[], [1, 2], [], [3]]"
  "str_join [0] [[], [1, 2], [], [3 :: nat]] = [0, 1, 2, 0, 0, 3]"
  by (simp_all add: str_replace.simps(2) split_from.simps(2))

lemma file_text_CRLF: "file_text (world_with_file [97, 13, 10]) path = Some [97, LF]"
  by (simp add: file_text_def world_with_file_simps utf8_seq_def CR_def LF_def)

lemma short_free: "length s < 106 \<Longrightarrow> \<not> occurs_in old_text s"
  using occurs_in_length [of old_text s] length_old_text by auto

subsection \<open>Line endings in a run\<close>

lemma utf8_encode_append:
  "utf8_encode a = Some x \<Longrightarrow> utf8_encode b = Some y \<Longrightarrow> utf8_encode (a @ b) = Some (x @ y)"
  by (induction a arbitrary: x) (auto split: option.splits)

lemma ascii_bytes_no_CR:
  assumes "\<forall>c \<in> set s. c < 128" and "CR \<notin> set s"
  shows "13 \<notin> set (ascii_bytes s)"
proof
  assume "13 \<in> set (ascii_bytes s)"
  then obtain c where c: "c \<in> set s" and e: "(of_nat c :: byte) = 13"
    by (auto simp: ascii_bytes_def)
  have "c < 256" using assms(1) c by fastforce
  then have "unat (of_nat c :: byte) = c" by (rule unat_byte_of_nat)
  then have "c = 13" using e by simp
  then show False using c assms(2) by (simp add: CR_def)
qed

lemma other_first_no_prefix: "c \<noteq> 34 \<Longrightarrow> \<not> prefix old_text (c # r)"
proof -
  assume "c \<noteq> 34"
  then have "\<not> prefix (34 # tl old_text) (c # r)" by simp
  then show ?thesis using old_text_Cons by metis
qed

lemma replace_after_other:
  "c \<noteq> 34 \<Longrightarrow> str_replace old_text new_text (c # s) = c # str_replace old_text new_text s"
  by (rule str_replace_step) (rule other_first_no_prefix)

lemma ascii_bytes_Cons: "ascii_bytes (c # s) = of_nat c # ascii_bytes s"
  by (simp add: ascii_bytes_def)

lemma ascii_bytes_old_text: "ascii_bytes old_text = 34 # ascii_bytes (tl old_text)"
  using old_text_Cons ascii_bytes_Cons [of 34 "tl old_text"] by simp

lemma length_ascii_bytes: "length (ascii_bytes s) = length s"
  by (simp add: ascii_bytes_def)

lemma posix_run_without_CR:
  assumes f: "files w path = Some f" "readable f" "writable f"
    and s: "utf8_decode (data f) = Some s" and nocr: "CR \<notin> set s"
  shows "file_text w path = Some s"
    and "map_option data (files (snd (main Posix w)) path)
         = utf8_encode (str_replace old_text new_text s)"
proof -
  show t: "file_text w path = Some s"
    using f(1) s universal_newlines_id [OF nocr] by (simp add: file_text_def)
  show "map_option data (files (snd (main Posix w)) path)
      = utf8_encode (str_replace old_text new_text s)"
    using main_text(3) [OF f t, where pf = Posix] by (simp add: write_newlines_Posix)
qed

lemma text_CRLF_old: "file_text (world_with_file (ascii_bytes (13 # 10 # old_text))) path
    = Some (LF # old_text)"
proof -
  have a: "\<forall>c \<in> set (13 # 10 # old_text). c < 128" using old_text_ascii by simp
  have "universal_newlines (13 # 10 # old_text) = LF # universal_newlines old_text"
    by (simp add: CR_def LF_def)
  then have "universal_newlines (13 # 10 # old_text) = LF # old_text"
    using universal_newlines_id [OF CR_notin_old_text] by simp
  then show ?thesis
    using utf8_decode_ascii [OF a] by (simp add: file_text_def world_with_file_simps)
qed

lemma other_first_byte_no_prefix:
  "b \<noteq> 34 \<Longrightarrow> \<not> prefix (ascii_bytes old_text) (b # r)"
  by (simp add: ascii_bytes_old_text)

lemma byte_replace_CRLF_old:
  "str_replace (ascii_bytes old_text) (ascii_bytes new_text) (ascii_bytes (13 # 10 # old_text))
   = ascii_bytes (13 # 10 # new_text)"
proof -
  let ?o = "ascii_bytes old_text" and ?n = "ascii_bytes new_text"
  have ne: "?o \<noteq> []" using ascii_bytes_old_text by simp
  have p1: "\<not> prefix ?o (13 # 10 # ?o)" by (rule other_first_byte_no_prefix) simp
  have p2: "\<not> prefix ?o (10 # ?o)" by (rule other_first_byte_no_prefix) simp
  have m: "str_replace ?o ?n ?o = ?n"
    using str_replace_match [OF ne, of ?n "[]"] ne by simp
  have "str_replace ?o ?n (13 # 10 # ?o) = 13 # 10 # ?n"
    using str_replace_step [OF p1] str_replace_step [OF p2] m by simp
  then show ?thesis by (simp add: ascii_bytes_Cons)
qed

subsection \<open>Exact matching in a run\<close>

lemma universal_newlines_CR_other:
  "d \<noteq> LF \<Longrightarrow> universal_newlines (CR # d # cs) = LF # universal_newlines (d # cs)"
  by simp

lemma exact_matching_in_run:
  assumes f: "files w path = Some f" "readable f" "writable f"
    and s: "utf8_decode (data f) = Some s"
  shows "fst (main pf w) = None"
    and "spec_scan_parts old_text gs \<Longrightarrow> universal_newlines s = str_join old_text gs \<Longrightarrow>
          \<exists>out. map_option data (files (snd (main pf w)) path) = Some out
            \<and> utf8_decode out = Some (write_newlines pf (str_join new_text gs))"
    and "\<exists>gs. spec_scan_parts old_text gs \<and> universal_newlines s = str_join old_text gs"
    and "file_text (snd (main pf w)) path \<noteq> file_text w path
          \<longleftrightarrow> sublist old_text (universal_newlines s)"
    and "map_option data (files (snd (main pf w)) path)
          = utf8_encode (write_newlines pf (str_replace old_text new_text (universal_newlines s)))"
proof -
  let ?c = "universal_newlines s"
  let ?t = "str_replace old_text new_text ?c"
  let ?gs = "split_from old_text [] ?c"
  have ft: "file_text w path = Some ?c" using f(1) s by (simp add: file_text_def)
  note m = main_text [OF f ft, where pf = pf]
  show "fst (main pf w) = None" using m(1) .
  show bytes: "map_option data (files (snd (main pf w)) path) = utf8_encode (write_newlines pf ?t)"
    using m(3) .
  obtain out where out: "utf8_encode (write_newlines pf ?t) = Some out"
    using content_encodable [OF s] by blast
  have dec: "utf8_decode out = Some (write_newlines pf ?t)"
    using utf8_encode_decode [OF out] .
  show "\<exists>out. map_option data (files (snd (main pf w)) path) = Some out
      \<and> utf8_decode out = Some (write_newlines pf (str_join new_text gs))"
    if sp: "spec_scan_parts old_text gs" and j: "?c = str_join old_text gs"
  proof -
    have eq: "?t = str_join new_text gs"
      using str_replace_scan_parts [OF old_text_not_Nil sp, of new_text] j by simp
    have "map_option data (files (snd (main pf w)) path) = Some out"
      using bytes out by (simp only:)
    moreover have "utf8_decode out = Some (write_newlines pf (str_join new_text gs))"
      using dec eq by (simp only:)
    ultimately show ?thesis by blast
  qed
  have "spec_scan_parts old_text ?gs"
    using split_from_scan_parts [OF old_text_not_Nil] .
  moreover have "?c = str_join old_text ?gs"
    using str_join_split_from [OF old_text_not_Nil, of ?c] by simp
  ultimately show "\<exists>gs. spec_scan_parts old_text gs \<and> ?c = str_join old_text gs" by blast
  have "?t \<noteq> ?c" if "occurs_in old_text ?c"
    using str_replace_changes [OF that old_text_not_Nil] length_old_text length_new_text
    by simp
  then have "?t \<noteq> ?c \<longleftrightarrow> sublist old_text ?c"
    using str_replace_no_occurrence [of old_text ?c new_text]
    unfolding occurs_in_iff_sublist by blast
  then show "file_text (snd (main pf w)) path \<noteq> file_text w path \<longleftrightarrow> sublist old_text ?c"
    using m(2) ft by simp
qed

lemma utf8_encode_inj:
  assumes "utf8_encode a = Some x" and "utf8_encode b = Some x"
  shows "a = b"
  using utf8_encode_decode [OF assms(1)] utf8_encode_decode [OF assms(2)] by simp

lemma posix_bytes_change:
  assumes f: "files w path = Some f" "readable f" "writable f"
    and s: "utf8_decode (data f) = Some s" and nocr: "CR \<notin> set s"
  shows "map_option data (files (snd (main Posix w)) path) \<noteq> Some (data f)
          \<longleftrightarrow> sublist old_text s"
proof -
  let ?t = "str_replace old_text new_text s"
  have b: "map_option data (files (snd (main Posix w)) path) = utf8_encode ?t"
    using posix_run_without_CR(2) [OF f s nocr] .
  have e: "utf8_encode s = Some (data f)" using utf8_decode_encode [OF s] .
  have "?t \<noteq> s" if "occurs_in old_text s"
    using str_replace_changes [OF that old_text_not_Nil] length_old_text length_new_text
    by simp
  then have ch: "?t \<noteq> s \<longleftrightarrow> sublist old_text s"
    using str_replace_no_occurrence [of old_text s new_text]
    unfolding occurs_in_iff_sublist by blast
  show ?thesis
  proof
    assume "map_option data (files (snd (main Posix w)) path) \<noteq> Some (data f)"
    then have "?t \<noteq> s" using b e by auto
    then show "sublist old_text s" using ch by simp
  next
    assume "sublist old_text s"
    then have ne: "?t \<noteq> s" using ch by simp
    show "map_option data (files (snd (main Posix w)) path) \<noteq> Some (data f)"
    proof
      assume "map_option data (files (snd (main Posix w)) path) = Some (data f)"
      then have "utf8_encode ?t = Some (data f)" using b by simp
      then show False using utf8_encode_inj [OF _ e] ne by blast
    qed
  qed
qed

lemma utf8_encode_around:
  assumes "utf8_encode a = Some x" and "\<forall>c \<in> set m. c < 128" and "utf8_encode b = Some y"
  shows "utf8_encode (a @ m @ b) = Some (x @ ascii_bytes m @ y)"
  using utf8_encode_append [OF assms(1) utf8_encode_append [OF utf8_encode_ascii [OF assms(2)] assms(3)]] .

lemma replace_around:
  assumes "c \<noteq> 34" and "\<not> occurs_in old_text r"
  shows "str_replace old_text new_text (c # old_text @ r) = c # new_text @ r"
  using replace_after_other [OF assms(1), of "old_text @ r"]
    str_replace_match [OF old_text_not_Nil, of new_text r]
    str_replace_no_occurrence [OF assms(2), of new_text]
  by simp

section \<open>The claims\<close>

text \<open>
  C1, as stated, at a concrete file: a line end CR LF followed by the old literal. The
  original content with its one occurrence replaced would be CR LF followed by the new
  literal (that is what replacing on the bytes of the file gives); the run on POSIX writes
  LF followed by the new literal: the occurrence is replaced, and the line end before it
  is not what it was.
\<close>

theorem c1_line_ending_not_kept:
  "fst (main Posix (world_with_file (ascii_bytes (13 # 10 # old_text)))) = None
   \<and> map_option data (files (snd (main Posix (world_with_file
         (ascii_bytes (13 # 10 # old_text))))) path)
       = Some (ascii_bytes (10 # new_text))
   \<and> str_replace (ascii_bytes old_text) (ascii_bytes new_text)
         (ascii_bytes (13 # 10 # old_text))
       = ascii_bytes (13 # 10 # new_text)
   \<and> ascii_bytes (10 # new_text) \<noteq> ascii_bytes (13 # 10 # new_text)"
proof -
  let ?w = "world_with_file (ascii_bytes (13 # 10 # old_text))"
  have r: "readable \<lparr>data = bs, readable = True, writable = True\<rparr>"
    "writable \<lparr>data = bs, readable = True, writable = True\<rparr>" for bs :: "byte list"
    by simp_all
  note m = main_text(1,3) [OF world_with_file_simps(1) r text_CRLF_old, where pf = Posix]
  have rep: "str_replace old_text new_text (LF # old_text) = LF # new_text"
    using replace_after_other [of LF old_text] replace_old_text by (simp add: LF_def)
  have a: "\<forall>c \<in> set (LF # new_text). c < 128" using new_text_ascii by (simp add: LF_def)
  have enc: "utf8_encode (write_newlines Posix (LF # new_text)) = Some (ascii_bytes (10 # new_text))"
    using utf8_encode_ascii [OF a] by (simp add: write_newlines_Posix LF_def)
  have ne: "ascii_bytes (10 # new_text) \<noteq> ascii_bytes (13 # 10 # new_text)"
  proof
    assume "ascii_bytes (10 # new_text) = ascii_bytes (13 # 10 # new_text)"
    then have "length (ascii_bytes (10 # new_text)) = length (ascii_bytes (13 # 10 # new_text))"
      by simp
    then show False by (simp add: length_ascii_bytes)
  qed
  show ?thesis
    using m rep enc byte_replace_CRLF_old ne by simp
qed

text \<open>
  C1, amended: for every content of the target file, taken as the text that the read hands
  to the script (the bytes decoded as UTF-8, with line endings read as LF), a run on a
  readable and writable target ends normally and overwrites the file with the encoding of
  that text in which \<^verbatim>\<open>str.replace\<close> has replaced the old literal by the new one
  (LF written as the line separator of the platform); read back, the file holds the
  replaced text. Whenever the text is \<open>N + 1\<close> pieces joined by \<open>N\<close> occurrences of the
  old literal that a left-to-right scan finds, the file then holds the same pieces joined
  by the new literal: all \<open>N\<close> occurrences are replaced. On POSIX, for a file that holds
  no carriage return, the text is the decoded bytes themselves and the bytes written are
  the encoding of the replaced text.
\<close>

theorem c1_every_occurrence_replaced:
  assumes "files w path = Some f" "readable f" "writable f"
    and "file_text w path = Some content"
  shows "fst (main pf w) = None
    \<and> map_option data (files (snd (main pf w)) path)
        = utf8_encode (write_newlines pf (str_replace old_text new_text content))
    \<and> file_text (snd (main pf w)) path = Some (str_replace old_text new_text content)
    \<and> (\<forall>gs. spec_scan_parts old_text gs \<and> content = str_join old_text gs \<longrightarrow>
          file_text (snd (main pf w)) path = Some (str_join new_text gs))
    \<and> (pf = Posix \<and> 13 \<notin> set (data f) \<longrightarrow>
          utf8_decode (data f) = Some content
          \<and> map_option data (files (snd (main pf w)) path)
              = utf8_encode (str_replace old_text new_text content))"
proof -
  have 1: "fst (main pf w) = None
    \<and> map_option data (files (snd (main pf w)) path)
        = utf8_encode (write_newlines pf (str_replace old_text new_text content))
    \<and> file_text (snd (main pf w)) path = Some (str_replace old_text new_text content)
    \<and> (\<forall>gs. spec_scan_parts old_text gs \<and> content = str_join old_text gs \<longrightarrow>
          file_text (snd (main pf w)) path = Some (str_join new_text gs))"
    using main_text(1,2,3) [OF assms, where pf = pf]
      str_replace_scan_parts [OF old_text_not_Nil, of _ new_text]
    by auto
  have 2: "utf8_decode (data f) = Some content
      \<and> map_option data (files (snd (main pf w)) path)
          = utf8_encode (str_replace old_text new_text content)"
    if pf: "pf = Posix" and nocr: "13 \<notin> set (data f)"
  proof -
    obtain s where s: "utf8_decode (data f) = Some s" and c: "content = universal_newlines s"
      using assms(1,4) by (auto elim!: file_text_SomeD)
    have "CR \<notin> set s" using utf8_decode_no_CR [OF s nocr] .
    then have "content = s" using c universal_newlines_id by simp
    then show ?thesis using s 1 pf by (simp add: write_newlines_Posix)
  qed
  show ?thesis using 1 2 by blast
qed

theorem c1_every_occurrence_replaced_witness:
  "files (world_with_file (ascii_bytes (65 # old_text @ 66 # old_text))) path
     = Some \<lparr>data = ascii_bytes (65 # old_text @ 66 # old_text), readable = True,
             writable = True\<rparr>
   \<and> file_text (world_with_file (ascii_bytes (65 # old_text @ 66 # old_text))) path
     = Some (65 # old_text @ 66 # old_text)
   \<and> spec_scan_parts old_text [[65], [66], []]
   \<and> 65 # old_text @ 66 # old_text = str_join old_text [[65], [66], []]
   \<and> 13 \<notin> set (ascii_bytes (65 # old_text @ 66 # old_text))
   \<and> fst (main Posix (world_with_file (ascii_bytes (65 # old_text @ 66 # old_text)))) = None
   \<and> file_text (snd (main Posix (world_with_file (ascii_bytes (65 # old_text @ 66 # old_text)))))
        path
     = Some (65 # new_text @ 66 # new_text)
   \<and> map_option data (files (snd (main Posix
         (world_with_file (ascii_bytes (65 # old_text @ 66 # old_text))))) path)
     = Some (ascii_bytes (65 # new_text @ 66 # new_text))"
proof -
  let ?c = "65 # old_text @ 66 # old_text"
  let ?w = "world_with_file (ascii_bytes ?c)"
  let ?f = "\<lparr>data = ascii_bytes ?c, readable = True, writable = True\<rparr>"
  have h1: "files ?w path = Some ?f" by (rule world_with_file_simps)
  have a: "\<forall>c \<in> set ?c. c < 128" using old_text_ascii by simp
  have n: "CR \<notin> set ?c" using CR_notin_old_text by (simp add: CR_def)
  have h4: "file_text ?w path = Some ?c" using file_text_ascii [OF a n] .
  have sp: "spec_scan_parts old_text [[65], [66], []]"
    using short_gap_free [of 65] short_gap_free [of 66] old_text_not_Nil
    by (simp add: spec_scan_parts_def)
  have j: "?c = str_join old_text [[65], [66], []]" by simp
  have nb: "13 \<notin> set (data ?f)" using ascii_bytes_no_CR [OF a n] by simp
  have r: "readable ?f" "writable ?f" by simp_all
  note c1 = c1_every_occurrence_replaced [OF h1 r h4, of Posix]
  have res: "file_text (snd (main Posix ?w)) path = Some (str_join new_text [[65], [66], []])"
    using c1 sp j by blast
  have ok: "fst (main Posix ?w) = None" using c1 by blast
  have res': "file_text (snd (main Posix ?w)) path = Some (65 # new_text @ 66 # new_text)"
    using res by simp
  have rep: "str_replace old_text new_text ?c = 65 # new_text @ 66 # new_text"
    using c1 res' by simp
  have a': "\<forall>c \<in> set (65 # new_text @ 66 # new_text). c < 128" using new_text_ascii by simp
  have "map_option data (files (snd (main Posix ?w)) path)
      = utf8_encode (str_replace old_text new_text ?c)"
    using c1 nb by blast
  then have bytes: "map_option data (files (snd (main Posix ?w)) path)
      = Some (ascii_bytes (65 # new_text @ 66 # new_text))"
    using rep utf8_encode_ascii [OF a'] by simp
  have nb': "13 \<notin> set (ascii_bytes ?c)" using nb by simp
  show ?thesis using h1 h4 sp ok res' bytes nb' by simp
qed

text \<open>
  C2, as stated, at a concrete file: the old literal twice in a row. The run replaces both
  occurrences, so the text before and the text after differ in two places, and not, as the
  invariant says, in at most one occurrence.
\<close>

theorem c2_two_occurrences_both_replaced:
  "file_text (world_with_file (ascii_bytes (old_text @ old_text))) path
     = Some (old_text @ old_text)
   \<and> fst (main Posix (world_with_file (ascii_bytes (old_text @ old_text)))) = None
   \<and> file_text (snd (main Posix (world_with_file (ascii_bytes (old_text @ old_text))))) path
     = Some (new_text @ new_text)
   \<and> \<not> spec_at_most_one_changed old_text new_text (old_text @ old_text) (new_text @ new_text)"
proof -
  let ?w = "world_with_file (ascii_bytes (old_text @ old_text))"
  let ?f = "\<lparr>data = ascii_bytes (old_text @ old_text), readable = True, writable = True\<rparr>"
  have a: "\<forall>c \<in> set (old_text @ old_text). c < 128" using old_text_ascii by simp
  have n: "CR \<notin> set (old_text @ old_text)" using CR_notin_old_text by simp
  have ft: "file_text ?w path = Some (old_text @ old_text)" using file_text_ascii [OF a n] .
  have r: "readable ?f" "writable ?f" by simp_all
  note m = main_text(1,2) [OF world_with_file_simps(1) r ft, where pf = Posix]
  show ?thesis
    using ft m two_occurrences_changed by (simp add: replace_old_old)
qed

text \<open>
  C2, amended: the text of the file before and after a run differ only in the occurrences
  of the old literal that the left-to-right scan finds, however many they are: the text is
  pieces joined by the old literal before and the same pieces joined by the new literal
  after. With at most one such occurrence the invariant holds as the specification
  words it.
\<close>

theorem c2_differs_in_scanned_occurrences:
  assumes "files w path = Some f" "readable f" "writable f"
    and "file_text w path = Some before"
  shows "\<exists>gs. spec_scan_parts old_text gs \<and> before = str_join old_text gs
    \<and> file_text (snd (main pf w)) path = Some (str_join new_text gs)
    \<and> (length gs \<le> 2 \<longrightarrow>
          spec_at_most_one_changed old_text new_text before (str_join new_text gs))"
proof -
  let ?gs = "split_from old_text [] before"
  have sp: "spec_scan_parts old_text ?gs"
    using split_from_scan_parts [OF old_text_not_Nil] .
  have j: "before = str_join old_text ?gs"
    using str_join_split_from [OF old_text_not_Nil, of before] by simp
  have a: "file_text (snd (main pf w)) path = Some (str_join new_text ?gs)"
    using main_text(2) [OF assms, where pf = pf]
      str_replace_split_from [OF old_text_not_Nil, of new_text before] by simp
  have "spec_at_most_one_changed old_text new_text before (str_join new_text ?gs)"
    if "length ?gs \<le> 2"
    using scan_parts_at_most_one [OF split_from_not_Nil that, of old_text new_text] j by simp
  then show ?thesis using sp j a by blast
qed

theorem c2_differs_in_scanned_occurrences_witness:
  "files (world_with_file (ascii_bytes old_text)) path
     = Some \<lparr>data = ascii_bytes old_text, readable = True, writable = True\<rparr>
   \<and> file_text (world_with_file (ascii_bytes old_text)) path = Some old_text
   \<and> (\<exists>gs. spec_scan_parts old_text gs \<and> old_text = str_join old_text gs
        \<and> file_text (snd (main Posix (world_with_file (ascii_bytes old_text)))) path
            = Some (str_join new_text gs)
        \<and> (length gs \<le> 2 \<longrightarrow>
              spec_at_most_one_changed old_text new_text old_text (str_join new_text gs)))"
proof -
  let ?w = "world_with_file (ascii_bytes old_text)"
  let ?f = "\<lparr>data = ascii_bytes old_text, readable = True, writable = True\<rparr>"
  have h1: "files ?w path = Some ?f" by (rule world_with_file_simps)
  have h4: "file_text ?w path = Some old_text"
    using file_text_ascii [OF old_text_ascii CR_notin_old_text] .
  have r: "readable ?f" "writable ?f" by simp_all
  show ?thesis
    using h1 h4 c2_differs_in_scanned_occurrences [OF h1 r h4, of Posix] by blast
qed

text \<open>
  C3, as stated, at a concrete file: the single byte 0x0D, a carriage return. Its text holds
  no occurrence of the old literal and the run ends normally, but the file is not what it
  was: read as a line end and written back as the platform's line separator, it holds the
  byte 0x0A on POSIX and the bytes 0x0D 0x0A on Windows. Likewise a file that ends its
  line with 0x0D 0x0A comes out of a run on POSIX with the line ended by 0x0A alone.
\<close>

theorem c3_carriage_return_is_rewritten:
  "file_text (world_with_file [13]) path = Some [LF]
   \<and> \<not> occurs_in old_text [LF]
   \<and> fst (main Posix (world_with_file [13])) = None
   \<and> map_option data (files (snd (main Posix (world_with_file [13]))) path) = Some [10]
   \<and> fst (main Windows (world_with_file [13])) = None
   \<and> map_option data (files (snd (main Windows (world_with_file [13]))) path) = Some [13, 10]
   \<and> file_text (world_with_file [97, 13, 10]) path = Some [97, LF]
   \<and> \<not> occurs_in old_text [97, LF]
   \<and> fst (main Posix (world_with_file [97, 13, 10])) = None
   \<and> map_option data (files (snd (main Posix (world_with_file [97, 13, 10]))) path)
       = Some [97, 10]"
proof -
  have r: "readable \<lparr>data = bs, readable = True, writable = True\<rparr>"
    "writable \<lparr>data = bs, readable = True, writable = True\<rparr>" for bs :: "byte list"
    by simp_all
  note m = main_text(1,3) [OF world_with_file_simps(1) r file_text_CR]
  note m' = main_text(1,3) [OF world_with_file_simps(1) r file_text_CRLF, where pf = Posix]
  have same: "str_replace old_text new_text [LF] = [LF]"
    using str_replace_no_occurrence [OF LF_free] .
  have free': "\<not> occurs_in old_text [97, LF]" by (rule short_free) simp
  have same': "str_replace old_text new_text [97, LF] = [97, LF]"
    using str_replace_no_occurrence [OF free'] .
  have e1: "utf8_encode (write_newlines Posix [LF]) = Some [10]"
    by (simp add: write_newlines_def utf8_encode1_def LF_def)
  have e2: "utf8_encode (write_newlines Windows [LF]) = Some [13, 10]"
    by (simp add: write_newlines_def utf8_encode1_def LF_def CR_def)
  have e3: "utf8_encode (write_newlines Posix [97, LF]) = Some [97, 10]"
    by (simp add: write_newlines_def utf8_encode1_def LF_def)
  show ?thesis
    using m [where pf = Posix] m [where pf = Windows] m' same same' e1 e2 e3
      file_text_CR file_text_CRLF LF_free free'
    by simp
qed

text \<open>
  C3, amended: for every content of the target file without an occurrence of the old
  literal, a run on a readable and writable target ends normally (no match is no error) and
  the file holds the same text afterwards, its line endings read as LF. On POSIX a file
  that holds no carriage return is left byte for byte as it was, and so is every other
  file.
\<close>

theorem c3_absent_literal_keeps_text:
  assumes "files w path = Some f" "readable f" "writable f"
    and "file_text w path = Some content"
    and "\<not> occurs_in old_text content"
  shows "fst (main pf w) = None
    \<and> file_text (snd (main pf w)) path = Some content
    \<and> (pf = Posix \<and> 13 \<notin> set (data f) \<longrightarrow> files (snd (main pf w)) = files w)"
  using absent_literal_run [OF assms, of pf] by simp

theorem c3_absent_literal_keeps_text_witness:
  "files (world_with_file (ascii_bytes [72, 105, 10])) path
     = Some \<lparr>data = ascii_bytes [72, 105, 10], readable = True, writable = True\<rparr>
   \<and> file_text (world_with_file (ascii_bytes [72, 105, 10])) path = Some [72, 105, 10]
   \<and> \<not> occurs_in old_text [72, 105, 10]
   \<and> 13 \<notin> set (ascii_bytes [72, 105, 10])
   \<and> fst (main Posix (world_with_file (ascii_bytes [72, 105, 10]))) = None
   \<and> files (snd (main Posix (world_with_file (ascii_bytes [72, 105, 10]))))
     = files (world_with_file (ascii_bytes [72, 105, 10]))"
proof -
  let ?w = "world_with_file (ascii_bytes [72, 105, 10])"
  let ?f = "\<lparr>data = ascii_bytes [72, 105, 10], readable = True, writable = True\<rparr>"
  have h1: "files ?w path = Some ?f" by (rule world_with_file_simps)
  have r: "readable ?f" "writable ?f" by simp_all
  have h4: "file_text ?w path = Some [72, 105, 10]"
    by (rule file_text_ascii) (simp_all add: CR_def)
  have h5: "\<not> occurs_in old_text [72, 105, 10]"
    using occurs_in_length [of old_text "[72, 105, 10]"] length_old_text by auto
  have h6: "13 \<notin> set (ascii_bytes [72, 105, 10])"
    by (simp add: ascii_bytes_def)
  have "data ?f = ascii_bytes [72, 105, 10]" by simp
  then show ?thesis
    using h1 h4 h5 h6 c3_absent_literal_keeps_text [OF h1 r h4 h5, of Posix] by simp
qed

text \<open>
  C4: when the content written by a first run holds no occurrence of the old literal, a
  second run ends normally and leaves every file as the first run left it; on the content,
  replacing twice gives what replacing once gives.
\<close>

theorem c4_second_run_is_noop:
  assumes "files w path = Some f" "readable f" "writable f"
    and "file_text w path = Some content"
    and "\<not> occurs_in old_text (str_replace old_text new_text content)"
  shows "fst (main pf (snd (main pf w))) = None
    \<and> files (snd (main pf (snd (main pf w)))) = files (snd (main pf w))
    \<and> str_replace old_text new_text (str_replace old_text new_text content)
        = str_replace old_text new_text content"
  using second_run [OF assms, of pf] str_replace_no_occurrence [OF assms(5)] by simp

theorem c4_second_run_is_noop_witness:
  "files (world_with_file (ascii_bytes old_text)) path
     = Some \<lparr>data = ascii_bytes old_text, readable = True, writable = True\<rparr>
   \<and> file_text (world_with_file (ascii_bytes old_text)) path = Some old_text
   \<and> \<not> occurs_in old_text (str_replace old_text new_text old_text)
   \<and> fst (main Posix (snd (main Posix (world_with_file (ascii_bytes old_text))))) = None
   \<and> files (snd (main Posix (snd (main Posix (world_with_file (ascii_bytes old_text))))))
     = files (snd (main Posix (world_with_file (ascii_bytes old_text))))"
proof -
  let ?w = "world_with_file (ascii_bytes old_text)"
  let ?f = "\<lparr>data = ascii_bytes old_text, readable = True, writable = True\<rparr>"
  have h1: "files ?w path = Some ?f" by (rule world_with_file_simps)
  have h4: "file_text ?w path = Some old_text"
    using file_text_ascii [OF old_text_ascii CR_notin_old_text] .
  have h5: "\<not> occurs_in old_text (str_replace old_text new_text old_text)"
    using new_text_free by (simp add: replace_old_text)
  have r: "readable ?f" "writable ?f" by simp_all
  show ?thesis
    using h1 h4 h5 c4_second_run_is_noop [OF h1 r h4 h5, of Posix] by simp
qed

text \<open>
  C5: when the target cannot be opened for reading, because it does not exist or may not
  be read, the run ends with that file-access error and the world is the one it started
  in: no file is changed, nothing is truncated or written, nothing is printed.
\<close>

theorem c5_unreadable_target_fails_unchanged:
  assumes "open_read path w = Inl e"
  shows "main pf w = (Some e, w) \<and> (e = FileNotFoundError \<or> e = PermissionError)
         \<and> (e = FileNotFoundError \<longleftrightarrow> files w path = None)"
  using assms by (auto simp: main_def open_read_def split: option.splits if_splits)

theorem c5_unreadable_target_fails_unchanged_witness:
  "open_read path world_without_file = Inl FileNotFoundError
   \<and> main Posix world_without_file = (Some FileNotFoundError, world_without_file)
   \<and> open_read path
        \<lparr>files = [path \<mapsto> \<lparr>data = [0x41], readable = False, writable = True\<rparr>],
         stdout = [], trace = []\<rparr> = Inl PermissionError
   \<and> main Posix
        \<lparr>files = [path \<mapsto> \<lparr>data = [0x41], readable = False, writable = True\<rparr>],
         stdout = [], trace = []\<rparr>
       = (Some PermissionError,
          \<lparr>files = [path \<mapsto> \<lparr>data = [0x41], readable = False, writable = True\<rparr>],
           stdout = [], trace = []\<rparr>)"
proof -
  let ?w = "\<lparr>files = [path \<mapsto> \<lparr>data = [0x41], readable = False, writable = True\<rparr>],
             stdout = [], trace = []\<rparr>"
  have h: "open_read path world_without_file = Inl FileNotFoundError"
    by (simp add: open_read_def world_without_file_def)
  have h': "open_read path ?w = Inl PermissionError"
    by (simp add: open_read_def)
  show ?thesis
    using h h' c5_unreadable_target_fails_unchanged [OF h, of Posix]
      c5_unreadable_target_fails_unchanged [OF h', of Posix]
    by simp
qed

text \<open>
  C6: when the bytes of the target are not valid UTF-8, the read raises the decoding error,
  which ends the run; the world is the one the run started in, so the file keeps its bytes
  and nothing is written or printed.
\<close>

theorem c6_invalid_utf8_fails_unchanged:
  assumes "open_read path w = Inr bs" and "utf8_decode bs = None"
  shows "main pf w = (Some UnicodeDecodeError, w)"
  using assms by (simp add: main_def read_text_def)

theorem c6_invalid_utf8_fails_unchanged_witness:
  "open_read path (world_with_file [0xFF]) = Inr [0xFF] \<and> utf8_decode [0xFF] = None
   \<and> main Posix (world_with_file [0xFF]) = (Some UnicodeDecodeError, world_with_file [0xFF])"
proof -
  have h1: "open_read path (world_with_file [0xFF]) = Inr [0xFF]"
    by (simp add: open_read_def world_with_file_def)
  have h2: "utf8_decode [0xFF] = None"
    by (simp add: utf8_seq_def)
  show ?thesis
    using h1 h2 c6_invalid_utf8_fails_unchanged [OF h1 h2, of Posix] by simp
qed

text \<open>
  C7, as stated, at a concrete file: the letter U+00E9 and a carriage return, followed by
  the old literal. The run on POSIX replaces the occurrence, and the text before it does
  not stay as it was: the file written holds U+00E9 and a line feed before the new
  literal, where the original held U+00E9 and a carriage return.
\<close>

theorem c7_surrounding_carriage_return_changed:
  "utf8_decode (0xC3 # 0xA9 # 0x0D # ascii_bytes old_text) = Some (233 # 13 # old_text)
   \<and> fst (main Posix (world_with_file (0xC3 # 0xA9 # 0x0D # ascii_bytes old_text))) = None
   \<and> map_option data (files (snd (main Posix (world_with_file
         (0xC3 # 0xA9 # 0x0D # ascii_bytes old_text)))) path)
       = Some (0xC3 # 0xA9 # 0x0A # ascii_bytes new_text)
   \<and> utf8_decode (0xC3 # 0xA9 # 0x0A # ascii_bytes new_text) = Some (233 # 10 # new_text)
   \<and> 233 # 10 # new_text \<noteq> 233 # 13 # new_text"
proof -
  let ?b = "0xC3 # 0xA9 # 0x0D # ascii_bytes old_text"
  let ?w = "world_with_file ?b"
  have e1: "utf8_encode [233, 13] = Some [0xC3, 0xA9, 0x0D]"
    by (simp add: utf8_encode1_def)
  have e2: "utf8_encode [233, 10] = Some [0xC3, 0xA9, 0x0A]"
    by (simp add: utf8_encode1_def)
  have eo: "utf8_encode ([233, 13] @ old_text) = Some ([0xC3, 0xA9, 0x0D] @ ascii_bytes old_text)"
    using utf8_encode_append [OF e1 utf8_encode_ascii [OF old_text_ascii]] .
  have en: "utf8_encode ([233, 10] @ new_text) = Some ([0xC3, 0xA9, 0x0A] @ ascii_bytes new_text)"
    using utf8_encode_append [OF e2 utf8_encode_ascii [OF new_text_ascii]] .
  have d1: "utf8_decode ?b = Some (233 # 13 # old_text)"
    using utf8_encode_decode [OF eo] by simp
  have d2: "utf8_decode (0xC3 # 0xA9 # 0x0A # ascii_bytes new_text) = Some (233 # 10 # new_text)"
    using utf8_encode_decode [OF en] by simp
  have "universal_newlines (CR # old_text) = LF # universal_newlines old_text"
    using universal_newlines_CR_other [of 34 "tl old_text"] old_text_Cons
    by (simp add: LF_def)
  then have "universal_newlines (233 # 13 # old_text) = 233 # LF # old_text"
    using universal_newlines_id [OF CR_notin_old_text]
      universal_newlines_other [of 233 "CR # old_text"]
    by (simp add: CR_def)
  then have ft: "file_text ?w path = Some (233 # LF # old_text)"
    using d1 by (simp add: file_text_def world_with_file_simps)
  have r: "readable \<lparr>data = bs, readable = True, writable = True\<rparr>"
    "writable \<lparr>data = bs, readable = True, writable = True\<rparr>" for bs :: "byte list"
    by simp_all
  note m = main_text(1,3) [OF world_with_file_simps(1) r ft, where pf = Posix]
  have rep: "str_replace old_text new_text (233 # LF # old_text) = 233 # LF # new_text"
    using replace_after_other [of 233 "LF # old_text"] replace_after_other [of LF old_text]
      replace_old_text
    by (simp add: LF_def)
  have enc: "utf8_encode (write_newlines Posix (233 # LF # new_text))
      = Some (0xC3 # 0xA9 # 0x0A # ascii_bytes new_text)"
    using en by (simp add: write_newlines_Posix LF_def)
  show ?thesis
    using m rep enc d1 d2 by simp
qed

text \<open>
  C7, amended: for every content of the target file that is valid UTF-8, a run on a
  readable and writable target ends normally, and the old literal is matched code point
  for code point in the text that the read hands to the script (the decoded content, line
  endings read as LF): the text of the file changes exactly when the old literal occurs in
  that text as a contiguous run of equal code points, nothing being normalised. The text
  is, in at least one way, pieces joined by the occurrences that a left-to-right scan
  finds; for every such way, the bytes written are valid UTF-8 and decode to the very same
  pieces joined by the new literal, LF written as the line separator of the platform: the
  text around the occurrences, of whatever code points, is written as it was read. On
  POSIX, for a content without carriage return, the pieces are those of the decoded
  content itself, and the bytes of the file change exactly when the old literal occurs in
  the decoded content.
\<close>

theorem c7_exact_matching_in_run:
  assumes "files w path = Some f" "readable f" "writable f"
    and "utf8_decode (data f) = Some s"
  shows "fst (main pf w) = None
    \<and> (\<exists>gs. spec_scan_parts old_text gs \<and> universal_newlines s = str_join old_text gs)
    \<and> (\<forall>gs. spec_scan_parts old_text gs \<and> universal_newlines s = str_join old_text gs \<longrightarrow>
          (\<exists>out. map_option data (files (snd (main pf w)) path) = Some out
             \<and> utf8_decode out = Some (write_newlines pf (str_join new_text gs))))
    \<and> (file_text (snd (main pf w)) path \<noteq> file_text w path
          \<longleftrightarrow> sublist old_text (universal_newlines s))
    \<and> (pf = Posix \<and> CR \<notin> set s \<longrightarrow>
          (\<forall>gs. spec_scan_parts old_text gs \<and> s = str_join old_text gs \<longrightarrow>
             (\<exists>out. map_option data (files (snd (main pf w)) path) = Some out
                \<and> utf8_decode out = Some (str_join new_text gs)))
          \<and> (map_option data (files (snd (main pf w)) path) \<noteq> Some (data f)
                \<longleftrightarrow> sublist old_text s))"
proof -
  note e = exact_matching_in_run [OF assms]
  have 1: "fst (main pf w) = None" using e(1) .
  have 2: "\<exists>gs. spec_scan_parts old_text gs \<and> universal_newlines s = str_join old_text gs"
    using e(3) .
  have 3: "\<forall>gs. spec_scan_parts old_text gs \<and> universal_newlines s = str_join old_text gs \<longrightarrow>
      (\<exists>out. map_option data (files (snd (main pf w)) path) = Some out
         \<and> utf8_decode out = Some (write_newlines pf (str_join new_text gs)))"
    using e(2) by blast
  have 4: "file_text (snd (main pf w)) path \<noteq> file_text w path
      \<longleftrightarrow> sublist old_text (universal_newlines s)"
    using e(4) .
  have 5: "(\<forall>gs. spec_scan_parts old_text gs \<and> s = str_join old_text gs \<longrightarrow>
         (\<exists>out. map_option data (files (snd (main pf w)) path) = Some out
            \<and> utf8_decode out = Some (str_join new_text gs)))
      \<and> (map_option data (files (snd (main pf w)) path) \<noteq> Some (data f)
            \<longleftrightarrow> sublist old_text s)"
    if pf: "pf = Posix" and nocr: "CR \<notin> set s"
  proof -
    have cs: "universal_newlines s = s" using universal_newlines_id [OF nocr] .
    have a: "\<forall>gs. spec_scan_parts old_text gs \<and> s = str_join old_text gs \<longrightarrow>
         (\<exists>out. map_option data (files (snd (main pf w)) path) = Some out
            \<and> utf8_decode out = Some (str_join new_text gs))"
      using 3 cs pf by (simp add: write_newlines_Posix)
    have b: "map_option data (files (snd (main pf w)) path) \<noteq> Some (data f)
        \<longleftrightarrow> sublist old_text s"
      using posix_bytes_change [OF assms nocr] pf by simp
    show ?thesis using a b by blast
  qed
  show ?thesis using 1 2 3 4 5 by blast
qed

theorem c7_exact_matching_in_run_witness:
  "files (world_with_file ([0xE4, 0xB8, 0xAD] @ ascii_bytes old_text @ [0xC3, 0xA9])) path
     = Some \<lparr>data = [0xE4, 0xB8, 0xAD] @ ascii_bytes old_text @ [0xC3, 0xA9],
             readable = True, writable = True\<rparr>
   \<and> utf8_decode ([0xE4, 0xB8, 0xAD] @ ascii_bytes old_text @ [0xC3, 0xA9])
     = Some ([20013] @ old_text @ [233])
   \<and> CR \<notin> set ([20013] @ old_text @ [233])
   \<and> spec_scan_parts old_text [[20013], [233]]
   \<and> [20013] @ old_text @ [233] = str_join old_text [[20013], [233]]
   \<and> sublist old_text ([20013] @ old_text @ [233])
   \<and> fst (main Posix (world_with_file
         ([0xE4, 0xB8, 0xAD] @ ascii_bytes old_text @ [0xC3, 0xA9]))) = None
   \<and> map_option data (files (snd (main Posix (world_with_file
         ([0xE4, 0xB8, 0xAD] @ ascii_bytes old_text @ [0xC3, 0xA9])))) path)
     = Some ([0xE4, 0xB8, 0xAD] @ ascii_bytes new_text @ [0xC3, 0xA9])
   \<and> utf8_decode ([0xE4, 0xB8, 0xAD] @ ascii_bytes new_text @ [0xC3, 0xA9])
     = Some ([20013] @ new_text @ [233])
   \<and> [0xE4, 0xB8, 0xAD] @ ascii_bytes new_text @ [0xC3, 0xA9]
     \<noteq> [0xE4, 0xB8, 0xAD] @ ascii_bytes old_text @ [0xC3, 0xA9]"
proof -
  let ?b = "[0xE4, 0xB8, 0xAD] @ ascii_bytes old_text @ [0xC3, 0xA9] :: byte list"
  let ?b' = "[0xE4, 0xB8, 0xAD] @ ascii_bytes new_text @ [0xC3, 0xA9] :: byte list"
  let ?s = "[20013] @ old_text @ [233]"
  let ?s' = "[20013] @ new_text @ [233]"
  let ?gs = "[[20013], [233]] :: str list"
  let ?w = "world_with_file ?b"
  let ?f = "\<lparr>data = ?b, readable = True, writable = True\<rparr>"
  have h1: "files ?w path = Some ?f" by (rule world_with_file_simps)
  have r: "readable ?f" "writable ?f" by simp_all
  have e1: "utf8_encode [20013] = Some [0xE4, 0xB8, 0xAD]" by (simp add: utf8_encode1_def)
  have e2: "utf8_encode [233] = Some [0xC3, 0xA9]" by (simp add: utf8_encode1_def)
  have eo: "utf8_encode ?s = Some ?b"
    using utf8_encode_around [OF e1 old_text_ascii e2] .
  have en: "utf8_encode ?s' = Some ?b'"
    using utf8_encode_around [OF e1 new_text_ascii e2] .
  have h4: "utf8_decode (data ?f) = Some ?s" using utf8_encode_decode [OF eo] by simp
  have d2: "utf8_decode ?b' = Some ?s'" using utf8_encode_decode [OF en] .
  have nocr: "CR \<notin> set ?s" using CR_notin_old_text by (simp add: CR_def)
  have sp: "spec_scan_parts old_text ?gs"
    using short_gap_free [of 20013] short_free [of "[233]"] old_text_not_Nil
    by (simp add: spec_scan_parts_def)
  have j: "?s = str_join old_text ?gs" by simp
  have sub: "sublist old_text ?s" by (rule sublist_appendI)
  note c7 = c7_exact_matching_in_run [OF h1 r h4, of Posix]
  have ok: "fst (main Posix ?w) = None" using c7 by blast
  have "\<exists>out. map_option data (files (snd (main Posix ?w)) path) = Some out
      \<and> utf8_decode out = Some (str_join new_text ?gs)"
    using c7 nocr sp j by blast
  then obtain out where o1: "map_option data (files (snd (main Posix ?w)) path) = Some out"
    and o2: "utf8_decode out = Some ?s'" by auto
  have "out = ?b'" using utf8_decode_encode [OF o2] en by simp
  then have bytes: "map_option data (files (snd (main Posix ?w)) path) = Some ?b'"
    using o1 by simp
  have df: "data ?f = ?b" by simp
  have "map_option data (files (snd (main Posix ?w)) path) \<noteq> Some (data ?f)"
    using c7 nocr sub by blast
  then have "Some ?b' \<noteq> Some ?b" unfolding df bytes .
  then have ne: "?b' \<noteq> ?b" by blast
  have d1: "utf8_decode ?b = Some ?s" using h4 by simp
  show ?thesis using h1 d1 nocr sp j sub ok bytes d2 ne by blast
qed

text \<open>
  C8: a run that ends normally has printed exactly one line, \<^verbatim>\<open>Replacement complete\<close>,
  and its effects are, in this order, the truncation of the target, the write of the new
  bytes and the print: the line is printed after the write. A run that ends with an error
  has printed nothing.
\<close>

theorem c8_confirmation_printed_after_write:
  "(fst (main pf w) = None \<longrightarrow>
      stdout (snd (main pf w)) = stdout w @ [''Replacement complete'']
      \<and> (\<exists>out. trace (snd (main pf w))
             = trace w @ [Truncated path, Written path out, Printed ''Replacement complete'']))
   \<and> (fst (main pf w) \<noteq> None \<longrightarrow>
      stdout (snd (main pf w)) = stdout w \<and> trace (snd (main pf w)) = trace w)"
  by (rule main_outcomes [where w = w and pf = pf]) simp_all

theorem c8_confirmation_printed_after_write_witness:
  "fst (main Posix (world_with_file (ascii_bytes old_text))) = None
   \<and> stdout (snd (main Posix (world_with_file (ascii_bytes old_text))))
       = [''Replacement complete'']
   \<and> (\<exists>out. trace (snd (main Posix (world_with_file (ascii_bytes old_text))))
          = [Truncated path, Written path out, Printed ''Replacement complete''])
   \<and> fst (main Posix world_without_file) \<noteq> None
   \<and> stdout (snd (main Posix world_without_file)) = []
   \<and> trace (snd (main Posix world_without_file)) = []"
proof -
  have ok: "fst (main Posix (world_with_file (ascii_bytes old_text))) = None"
    by (rule run_on_old_text)
  have bad: "fst (main Posix world_without_file) \<noteq> None"
    by (simp add: main_missing world_without_file_def)
  show ?thesis
    using ok bad
      c8_confirmation_printed_after_write [of Posix "world_with_file (ascii_bytes old_text)"]
      c8_confirmation_printed_after_write [of Posix world_without_file]
    by (simp add: world_with_file_simps world_without_file_def)
qed

text \<open>
  C9: the outcome of a run, the file it leaves at the target and the lines it prints are
  determined by the file at the target alone. Two worlds that hold the same file there, and
  differ in their other files or in what was printed before, give the same outcome, the
  same file and the same printed lines; the platform is that of the interpreter, the same
  in both runs. Even between platforms the outcome and the text of the file agree.
\<close>

theorem c9_result_depends_on_target_file_only:
  assumes "files w1 path = files w2 path"
  shows "fst (main pf w1) = fst (main pf w2)
    \<and> files (snd (main pf w1)) path = files (snd (main pf w2)) path
    \<and> drop (length (stdout w1)) (stdout (snd (main pf w1)))
        = drop (length (stdout w2)) (stdout (snd (main pf w2)))
    \<and> fst (main pf1 w1) = fst (main pf2 w2)
    \<and> file_text (snd (main pf1 w1)) path = file_text (snd (main pf2 w2)) path"
  using run_depends_on_target [OF assms, of pf pf]
    run_depends_on_target(1,2) [OF assms, of pf1 pf2]
  by simp

theorem c9_result_depends_on_target_file_only_witness:
  "files (world_with_file (ascii_bytes old_text)) path
     = files ((world_with_file (ascii_bytes old_text))\<lparr>stdout := [''earlier output'']\<rparr>) path
   \<and> fst (main Posix ((world_with_file (ascii_bytes old_text))\<lparr>stdout := [''earlier output'']\<rparr>))
       = None
   \<and> file_text (snd (main Windows
         ((world_with_file (ascii_bytes old_text))\<lparr>stdout := [''earlier output'']\<rparr>))) path
       = Some new_text
   \<and> drop 1 (stdout (snd (main Posix
         ((world_with_file (ascii_bytes old_text))\<lparr>stdout := [''earlier output'']\<rparr>))))
       = [''Replacement complete'']"
proof -
  let ?w1 = "world_with_file (ascii_bytes old_text)"
  let ?w2 = "?w1\<lparr>stdout := [''earlier output'']\<rparr>"
  have h: "files ?w1 path = files ?w2 path" by simp
  show ?thesis
    using h c9_result_depends_on_target_file_only [OF h, of Posix Posix Windows]
      run_on_old_text [of Posix]
    by (simp add: world_with_file_simps)
qed

text \<open>
  C10, as stated, at a concrete content: the old literal followed by the old literal without
  its opening quotation mark. The scan replaces the occurrence at the start; the closing
  quotation mark of the inserted new literal and the text behind it then spell the old
  literal again, so a second replacement changes the content once more.
\<close>

theorem c10_replace_creates_occurrence:
  "str_replace old_text new_text (old_text @ tl old_text) = new_text @ tl old_text
   \<and> occurs_in old_text (new_text @ tl old_text)
   \<and> str_replace old_text new_text (str_replace old_text new_text (old_text @ tl old_text))
       \<noteq> str_replace old_text new_text (old_text @ tl old_text)"
proof -
  have "str_replace old_text new_text (new_text @ tl old_text) \<noteq> new_text @ tl old_text"
    using str_replace_changes [OF occurs_in_new_tl_old old_text_not_Nil]
      length_old_text length_new_text by simp
  then show ?thesis
    using replace_old_tl_old occurs_in_new_tl_old by simp
qed

text \<open>
  C10, amended: the new literal does not contain the old one, and replacing twice gives
  the same content as replacing once exactly for those contents whose replaced text holds
  no occurrence of the old literal.
\<close>

theorem c10_idempotent_iff_output_free:
  "\<not> occurs_in old_text new_text
   \<and> (str_replace old_text new_text (str_replace old_text new_text s)
          = str_replace old_text new_text s
        \<longleftrightarrow> \<not> occurs_in old_text (str_replace old_text new_text s))"
proof -
  have "str_replace old_text new_text t \<noteq> t" if "occurs_in old_text t" for t :: str
    using str_replace_changes [OF that old_text_not_Nil] length_old_text length_new_text
    by simp
  then show ?thesis
    using new_text_free str_replace_no_occurrence by blast
qed

end
